theory Spec2Isabelle
  imports Complex_Main "HOL-Library.Word" "HOL-Library.Signed_Division" "HOL-Library.Sublist"
begin

section \<open>Data model (listener.h)\<close>

text \<open>
  \<^verbatim>\<open>BoxBuf::Type\<close> and the box record of listener.h. The C++ fields
  \<^verbatim>\<open>type, id, x, y, w, h\<close> carry the suffix \<open>_b\<close> here (and \<open>_t\<close> in a track), since
  \<open>id\<close> and one-letter names would hide HOL's own; a member's trailing underscore is
  dropped or replaced likewise. \<^verbatim>\<open>unsigned int\<close> is a 32-bit word.
\<close>

datatype Type = kUnknown | kPerson | kPet | kVehicle

record BoxBuf =
  type_b :: Type
  id_b :: "32 word"
  x_b :: "32 word"
  y_b :: "32 word"
  w_b :: "32 word"
  h_b :: "32 word"

text \<open>\<^verbatim>\<open>TrackBuf\<close> derives from \<^verbatim>\<open>BoxBuf\<close> and adds no field.\<close>

type_synonym TrackBuf = BoxBuf

text \<open>
  \<^verbatim>\<open>BoxBuf() = default\<close>: the elements that \<^verbatim>\<open>vector::resize\<close> appends are
  value-initialised, that is, zeroed (\<^verbatim>\<open>kUnknown = 0\<close>).
\<close>

definition BoxBuf_default :: BoxBuf where
  "BoxBuf_default = \<lparr>type_b = kUnknown, id_b = 0, x_b = 0, y_b = 0, w_b = 0, h_b = 0\<rparr>"

text \<open>\<^verbatim>\<open>Listener::timeout_\<close>, in microseconds.\<close>

definition Listener_timeout :: nat where
  "Listener_timeout = 1000"

section \<open>Small dense linear algebra\<close>

text \<open>
  The fixed-size Eigen vectors and matrices are lists of rows. A \<^verbatim>\<open>double\<close> is the
  real number that it holds. The filter's matrix arithmetic is taken exact; the gating
  distance, which decides what is fused, is rounded as the machine rounds it (see
  \<open>binary64\<close> below).
\<close>

type_synonym vec = "real list"
type_synonym mat = "real list list"

definition dot :: "vec \<Rightarrow> vec \<Rightarrow> real" where
  "dot u v = sum_list (map2 (*) u v)"

definition mat_vec :: "mat \<Rightarrow> vec \<Rightarrow> vec" where
  "mat_vec M v = map (\<lambda>row. dot row v) M"

definition mat_mul :: "mat \<Rightarrow> mat \<Rightarrow> mat" where
  "mat_mul M N = map (\<lambda>row. map (\<lambda>col. dot row col) (transpose N)) M"

definition vec_add :: "vec \<Rightarrow> vec \<Rightarrow> vec" where
  "vec_add u v = map2 (+) u v"

definition vec_sub :: "vec \<Rightarrow> vec \<Rightarrow> vec" where
  "vec_sub u v = map2 (-) u v"

definition mat_add :: "mat \<Rightarrow> mat \<Rightarrow> mat" where
  "mat_add M N = map2 vec_add M N"

definition mat_sub :: "mat \<Rightarrow> mat \<Rightarrow> mat" where
  "mat_sub M N = map2 vec_sub M N"

definition scaled_identity :: "nat \<Rightarrow> real \<Rightarrow> mat" where
  "scaled_identity n c = map (\<lambda>i. map (\<lambda>j. if i = j then c else 0) [0..<n]) [0..<n]"

text \<open>
  Eigen inverts a fixed 2x2 matrix by cofactors over the determinant. Where the
  determinant is 0 the C++ yields infinities; here division by 0 is 0.
\<close>

definition inverse2 :: "mat \<Rightarrow> mat" where
  "inverse2 M =
     (let a = M ! 0 ! 0; b = M ! 0 ! 1; c = M ! 1 ! 0; d = M ! 1 ! 1;
          invdet = 1 / (a * d - b * c)
      in [[d * invdet, - b * invdet], [- c * invdet, a * invdet]])"

section \<open>Track and its Kalman filter (tracker.cpp, lines 35 to 128)\<close>

datatype State = kInit | kActive

text \<open>
  tracker.h is not among the sources. The fields of \<^verbatim>\<open>Tracker::Track\<close> are those
  that tracker.cpp reads and writes; \<open>x, y, w, h\<close> are doubles there
  (\<^verbatim>\<open>postTracks\<close> rounds them). \<open>stamp\<close> is a \<^verbatim>\<open>steady_clock::time_point\<close>, counted
  in nanoseconds.
\<close>

record Track =
  id_t :: "32 word"
  type_t :: Type
  x_t :: real
  y_t :: real
  w_t :: real
  h_t :: real
  touched :: bool
  stamp :: int
  state_t :: State
  X_t :: vec
  P_t :: mat
  Z_t :: vec
  R_t :: mat
  Q_t :: mat

text \<open>
  The three filter constants \<^verbatim>\<open>initial_error_\<close>, \<^verbatim>\<open>measure_variance_\<close> and
  \<^verbatim>\<open>process_variance_\<close> are declared in tracker.h; they are parameters here.
\<close>

record tuning =
  initial_error :: real
  measure_variance :: real
  process_variance :: real

definition A_mat :: mat where
  "A_mat = [[1, 0, 1, 0, 0, 0],
         [0, 1, 0, 1, 0, 0],
         [0, 0, 1, 0, 1, 0],
         [0, 0, 0, 1, 0, 1],
         [0, 0, 0, 0, 0, 0],
         [0, 0, 0, 0, 0, 0]]"

definition H_mat :: mat where
  "H_mat = [[1, 0, 0, 0, 0, 0],
         [0, 1, 0, 0, 0, 0]]"

definition ureal :: "32 word \<Rightarrow> real" where
  "ureal u = real (unat u)"

text \<open>
  The constructor \<^verbatim>\<open>Track(track_id, box)\<close>; \<open>now\<close> is what
  \<^verbatim>\<open>steady_clock::now()\<close> returns there. \<^verbatim>\<open>Z_\<close> is left unset by the C++; it is
  written before its first read.
\<close>

definition Track_new :: "tuning \<Rightarrow> int \<Rightarrow> 32 word \<Rightarrow> BoxBuf \<Rightarrow> Track" where
  "Track_new tun now track_id box =
     (let x = ureal (x_b box); y = ureal (y_b box);
          w = ureal (w_b box); h = ureal (h_b box);
          mid_x = x + w / 2; mid_y = y + h / 2
      in \<lparr>id_t = track_id, type_t = type_b box,
          x_t = x, y_t = y, w_t = w, h_t = h,
          touched = True, stamp = now, state_t = kInit,
          X_t = [mid_x, mid_y, 0, 0, 0, 0],
          P_t = scaled_identity 6 (initial_error tun),
          Z_t = [0, 0],
          R_t = scaled_identity 2 (measure_variance tun),
          Q_t = scaled_identity 6 (process_variance tun)\<rparr>)"

definition updateTime :: "Track \<Rightarrow> Track" where
  "updateTime t =
     (let t1 = t\<lparr>touched := True\<rparr>;
          t2 = t1\<lparr>X_t := mat_vec A_mat (X_t t1)\<rparr>
      in t2\<lparr>P_t := mat_add (mat_mul A_mat (mat_mul (P_t t2) (transpose A_mat))) (Q_t t2)\<rparr>)"

definition updateMeasure :: "Track \<Rightarrow> Track" where
  "updateMeasure t =
     (let K = mat_mul (mat_mul (P_t t) (transpose H_mat))
                (inverse2 (mat_add (mat_mul (mat_mul H_mat (P_t t)) (transpose H_mat)) (R_t t)));
          t1 = t\<lparr>X_t := vec_add (X_t t) (mat_vec K (vec_sub (Z_t t) (mat_vec H_mat (X_t t))))\<rparr>
      in t1\<lparr>P_t := mat_mul (mat_sub (scaled_identity 6 1) (mat_mul K H_mat)) (P_t t1)\<rparr>)"

text \<open>
  IEEE 754 binary64 rounding, to nearest with ties to even: 53 significant bits, the
  exponent not below \<open>-1022\<close> (so subnormal numbers are covered); overflow to infinity and
  NaN are left out.
\<close>

definition round_even :: "real \<Rightarrow> int" where
  "round_even y =
     (let f = \<lfloor>y\<rfloor>
      in if y - of_int f < 1 / 2 then f
         else if 1 / 2 < y - of_int f then f + 1
         else if even f then f else f + 1)"

definition binary64 :: "real \<Rightarrow> real" where
  "binary64 r =
     (if r = 0 then 0
      else (let e = max \<lfloor>log 2 \<bar>r\<bar>\<rfloor> (- 1022);
                u = 2 powr (of_int e - 52)
            in of_int (round_even (r / u)) * u))"

text \<open>
  \<^verbatim>\<open>getDistance\<close>: each of the two subtractions, the two \<^verbatim>\<open>std::pow(_, 2)\<close>, the addition
  and \<^verbatim>\<open>std::sqrt\<close> delivers the rounded value of its exact result.
\<close>

definition getDistance :: "Track \<Rightarrow> real \<Rightarrow> real \<Rightarrow> real" where
  "getDistance t mid_x mid_y =
     binary64 (sqrt (binary64 (binary64 ((binary64 (mid_x - X_t t ! 0)) ^ 2) +
                               binary64 ((binary64 (mid_y - X_t t ! 1)) ^ 2))))"

text \<open>
  \<^verbatim>\<open>addTarget\<close> in two halves: \<open>addTarget_seed\<close> is the function up to and including
  the \<^verbatim>\<open>kInit\<close> branch, \<open>addTarget\<close> continues with the predict step, the promotion to
  \<^verbatim>\<open>kActive\<close> and the correction.
\<close>

definition addTarget_seed :: "int \<Rightarrow> BoxBuf \<Rightarrow> Track \<Rightarrow> Track" where
  "addTarget_seed now box t =
     (let t1 = t\<lparr>stamp := now, x_t := ureal (x_b box), y_t := ureal (y_b box),
                 w_t := ureal (w_b box), h_t := ureal (h_b box)\<rparr>;
          mid_x = x_t t1 + w_t t1 / 2;
          mid_y = y_t t1 + h_t t1 / 2
      in if state_t t1 = kInit
         then t1\<lparr>X_t := (X_t t1)[2 := mid_x - X_t t1 ! 0, 3 := mid_y - X_t t1 ! 1]\<rparr>
         else t1)"

definition addTarget :: "int \<Rightarrow> BoxBuf \<Rightarrow> Track \<Rightarrow> Track" where
  "addTarget now box t =
     (let t1 = addTarget_seed now box t;
          mid_x = x_t t1 + w_t t1 / 2;
          mid_y = y_t t1 + h_t t1 / 2;
          t2 = updateTime t1;
          t3 = t2\<lparr>state_t := kActive\<rparr>;
          t4 = t3\<lparr>Z_t := [mid_x, mid_y]\<rparr>
      in updateMeasure t4)"

section \<open>Tracker (tracker.cpp, lines 131 to 389)\<close>

text \<open>
  The members that tracker.cpp uses (\<^verbatim>\<open>enc_\<close> is a pointer: \<open>enc\<close> says that it is not
  null), followed by four observation fields that the C++ does not have:
  \<open>clock_reads\<close> counts the calls of \<^verbatim>\<open>steady_clock::now()\<close> so far, \<open>fused_log\<close> lists
  the pairs (track index, target index) on which the latest \<^verbatim>\<open>associateTracks\<close> called
  \<^verbatim>\<open>addTarget\<close>, \<open>born_log\<close> lists the ids passed to the \<^verbatim>\<open>Track\<close> constructor, in
  creation order, and \<open>emitted\<close> lists the track-lists passed to the encoder's
  \<^verbatim>\<open>addMessage\<close>, newest first. The timing counters (\<^verbatim>\<open>differ_*\<close>) are left out.
\<close>

record Tracker =
  quiet :: bool
  enc :: bool
  max_dist :: real
  max_time :: "32 word"
  track_cnt :: "32 word"
  tracker_on :: bool
  target_types :: "Type set"
  tracks :: "Track list"
  targets :: "BoxBuf list"
  clock_reads :: nat
  fused_log :: "(nat \<times> nat) list"
  born_log :: "32 word list"
  emitted :: "TrackBuf list list"

text \<open>
  \<^verbatim>\<open>operator[]\<close> of a vector outside its bounds is undefined behaviour; the model
  stops with an error value there.
\<close>

datatype error = TargetsOutOfRange int | TracksOutOfRange nat

text \<open>
  \<^verbatim>\<open>Tracker::create\<close> with \<^verbatim>\<open>init\<close>. \<^verbatim>\<open>target_types_\<close> gets its value in
  tracker.h; it is a parameter.
\<close>

definition init :: "bool \<Rightarrow> bool \<Rightarrow> real \<Rightarrow> 32 word \<Rightarrow> Tracker \<Rightarrow> Tracker" where
  "init q e md mt st =
     st\<lparr>quiet := q, enc := e, max_dist := md, max_time := mt,
        track_cnt := 0, tracker_on := False\<rparr>"

definition create :: "Type set \<Rightarrow> bool \<Rightarrow> bool \<Rightarrow> real \<Rightarrow> 32 word \<Rightarrow> Tracker" where
  "create types q e md mt =
     init q e md mt
       \<lparr>quiet = False, enc = False, max_dist = 0, max_time = 0, track_cnt = 0,
        tracker_on = False, target_types = types, tracks = [], targets = [],
        clock_reads = 0, fused_log = [], born_log = [], emitted = []\<rparr>"

subsection \<open>addMessage\<close>

text \<open>\<^verbatim>\<open>vector::resize(n)\<close>: cut to \<open>n\<close> elements, or fill up with zeroed ones.\<close>

definition resize :: "BoxBuf list \<Rightarrow> nat \<Rightarrow> BoxBuf list" where
  "resize v n = take n v @ replicate (n - length v) BoxBuf_default"

text \<open>
  \<^verbatim>\<open>std::copy_if(first, last, d_first, pred)\<close>, writing from index \<open>j\<close> of the
  destination on. The destination is as long as the source here, so no write is out of
  range.
\<close>

fun copy_if :: "('a \<Rightarrow> bool) \<Rightarrow> 'a list \<Rightarrow> 'a list \<Rightarrow> nat \<Rightarrow> 'a list" where
  "copy_if pred [] dst j = dst"
| "copy_if pred (b # bs) dst j =
     (if pred b then copy_if pred bs (dst[j := b]) (Suc j) else copy_if pred bs dst j)"

text \<open>
  \<open>try_lock_for d\<close> is the outcome of \<^verbatim>\<open>lck.try_lock_for(microseconds(d))\<close> on
  \<^verbatim>\<open>targets_lock_\<close>, given by the environment (the other thread).
\<close>

definition addMessage :: "(nat \<Rightarrow> bool) \<Rightarrow> BoxBuf list \<Rightarrow> Tracker \<Rightarrow> bool \<times> Tracker" where
  "addMessage try_lock_for boxes st =
     (if \<not> try_lock_for Listener_timeout then (False, st)
      else (True,
            st\<lparr>targets := copy_if (\<lambda>box. type_b box \<in> target_types st) boxes
                             (resize (targets st) (length boxes)) 0\<rparr>))"

subsection \<open>The phases of a tick\<close>

definition waitingToRun :: "Tracker \<Rightarrow> Tracker" where
  "waitingToRun st = (if \<not> tracker_on st then st\<lparr>tracker_on := True\<rparr> else st)"

definition untouchTracks :: "Tracker \<Rightarrow> Tracker" where
  "untouchTracks st = st\<lparr>tracks := map (\<lambda>t. t\<lparr>touched := False\<rparr>) (tracks st)\<rparr>"

text \<open>
  The centroid \<^verbatim>\<open>x + w / 2.0\<close> of a box: exact in a \<^verbatim>\<open>double\<close>, the fields being
  32-bit unsigned.
\<close>

definition mid_x_of :: "BoxBuf \<Rightarrow> real" where
  "mid_x_of b = ureal (x_b b) + ureal (w_b b) / 2"

definition mid_y_of :: "BoxBuf \<Rightarrow> real" where
  "mid_y_of b = ureal (y_b b) + ureal (h_b b) / 2"

text \<open>
  The cost matrix: one row for each track, one column for each target, \<open>1.0e7\<close> where
  the categories differ.
\<close>

definition cost_matrix :: "Track list \<Rightarrow> BoxBuf list \<Rightarrow> mat" where
  "cost_matrix trs tgs =
     map (\<lambda>t. map (\<lambda>b. if type_t t = type_b b
                       then getDistance t (mid_x_of b) (mid_y_of b) else 10000000) tgs) trs"

text \<open>
  The loop over \<^verbatim>\<open>assignments\<close>: \<open>i\<close> is the row, the list holds
  \<^verbatim>\<open>assignments[i], assignments[i+1], ...\<close>, \<open>n\<close> counts the clock reads. \<^verbatim>\<open>targets_[k]\<close>
  is read before \<^verbatim>\<open>tracks_[i]\<close>. The result also lists the calls of \<^verbatim>\<open>addTarget\<close>.
\<close>

fun assign_loop :: "real \<Rightarrow> (nat \<Rightarrow> int) \<Rightarrow> nat \<Rightarrow> int list \<Rightarrow> Track list \<Rightarrow> BoxBuf list \<Rightarrow> nat
    \<Rightarrow> error + (Track list \<times> BoxBuf list \<times> (nat \<times> nat) list \<times> nat)" where
  "assign_loop md clk i [] trs tgs n = Inr (trs, tgs, [], n)"
| "assign_loop md clk i (k # ks) trs tgs n =
     (if k < 0 \<or> length tgs \<le> nat k then Inl (TargetsOutOfRange k)
      else if length trs \<le> i then Inl (TracksOutOfRange i)
      else if getDistance (trs ! i) (mid_x_of (tgs ! nat k)) (mid_y_of (tgs ! nat k)) \<le> md
      then (case assign_loop md clk (Suc i) ks
                   (trs[i := addTarget (clk n) (tgs ! nat k) (trs ! i)])
                   (tgs[nat k := (tgs ! nat k)\<lparr>id_b := - 1\<rparr>]) (Suc n) of
              Inl e \<Rightarrow> Inl e
            | Inr (trs', tgs', calls, n') \<Rightarrow> Inr (trs', tgs', (i, nat k) # calls, n'))
      else assign_loop md clk (Suc i) ks trs tgs n)"

text \<open>
  \<open>Solve\<close> is \<^verbatim>\<open>HungarianAlgorithm::Solve\<close> (third_party, not among the sources): a
  parameter that maps the cost matrix to the assignment vector.
\<close>

definition associateTracks :: "(nat \<Rightarrow> int) \<Rightarrow> (mat \<Rightarrow> int list) \<Rightarrow> Tracker \<Rightarrow> error + Tracker" where
  "associateTracks clk Solve st =
     (if tracks st \<noteq> [] \<and> targets st \<noteq> [] then
        (let cmat = cost_matrix (tracks st) (targets st);
             assignments = Solve cmat
         in case assign_loop (max_dist st) clk 0 assignments (tracks st) (targets st)
                   (clock_reads st) of
              Inl e \<Rightarrow> Inl e
            | Inr (trs, tgs, calls, n) \<Rightarrow>
                Inr (st\<lparr>tracks := trs, targets := filter (\<lambda>b. id_b b \<noteq> - 1) tgs,
                        clock_reads := n, fused_log := calls\<rparr>))
      else Inr (st\<lparr>fused_log := []\<rparr>))"

fun create_loop :: "tuning \<Rightarrow> (nat \<Rightarrow> int) \<Rightarrow> BoxBuf list \<Rightarrow> Tracker \<Rightarrow> Tracker" where
  "create_loop tun clk [] st = st"
| "create_loop tun clk (b # bs) st =
     create_loop tun clk bs
       (let cnt = track_cnt st + 1
        in st\<lparr>track_cnt := cnt,
              tracks := tracks st @ [Track_new tun (clk (clock_reads st)) cnt b],
              clock_reads := Suc (clock_reads st),
              born_log := born_log st @ [cnt]\<rparr>)"

definition createNewTracks :: "tuning \<Rightarrow> (nat \<Rightarrow> int) \<Rightarrow> Tracker \<Rightarrow> Tracker" where
  "createNewTracks tun clk st =
     (let st1 = (if targets st \<noteq> [] then create_loop tun clk (targets st) st else st)
      in st1\<lparr>targets := []\<rparr>)"

definition touchTracks :: "Tracker \<Rightarrow> Tracker" where
  "touchTracks st =
     st\<lparr>tracks := map (\<lambda>t. if \<not> touched t then updateTime t else t) (tracks st)\<rparr>"

text \<open>
  \<^verbatim>\<open>duration_cast<duration<unsigned int, milli>>(now - t.stamp).count()\<close>: the
  nanoseconds are divided by \<open>10^6\<close> as signed 64-bit integers (rounding to zero), and
  the quotient is converted to \<^verbatim>\<open>unsigned int\<close>.
\<close>

definition span_count :: "int \<Rightarrow> int \<Rightarrow> 32 word" where
  "span_count now stmp = word_of_int ((now - stmp) sdiv 1000000)"

definition cleanupTracks :: "(nat \<Rightarrow> int) \<Rightarrow> Tracker \<Rightarrow> Tracker" where
  "cleanupTracks clk st =
     (let now = clk (clock_reads st)
      in st\<lparr>tracks := filter (\<lambda>t. \<not> max_time st < span_count now (stamp t)) (tracks st),
            clock_reads := Suc (clock_reads st)\<rparr>)"

text \<open>
  C's \<^verbatim>\<open>round\<close> (halves away from zero) and the conversion of its result to
  \<^verbatim>\<open>unsigned int\<close>; the values rounded here were read from \<^verbatim>\<open>unsigned int\<close> fields.
\<close>

definition c_round :: "real \<Rightarrow> int" where
  "c_round r = (if 0 \<le> r then \<lfloor>r + 1 / 2\<rfloor> else - \<lfloor>- r + 1 / 2\<rfloor>)"

definition TrackBuf_of :: "Track \<Rightarrow> TrackBuf" where
  "TrackBuf_of t =
     \<lparr>type_b = type_t t, id_b = id_t t,
      x_b = word_of_int (c_round (x_t t)), y_b = word_of_int (c_round (y_t t)),
      w_b = word_of_int (c_round (w_t t)), h_b = word_of_int (c_round (h_t t))\<rparr>"

definition postTracks :: "Tracker \<Rightarrow> Tracker" where
  "postTracks st =
     (let trks = map TrackBuf_of (tracks st)
      in if enc st then st\<lparr>emitted := trks # emitted st\<rparr> else st)"

text \<open>
  \<^verbatim>\<open>running\<close>: \<open>running_cycle\<close> is its block guarded by \<^verbatim>\<open>targets_.size() != 0\<close>.
\<close>

definition running_cycle :: "tuning \<Rightarrow> (nat \<Rightarrow> int) \<Rightarrow> (mat \<Rightarrow> int list) \<Rightarrow> Tracker
    \<Rightarrow> error + Tracker" where
  "running_cycle tun clk Solve st =
     (case associateTracks clk Solve (untouchTracks st) of
        Inl e \<Rightarrow> Inl e
      | Inr st2 \<Rightarrow> Inr (touchTracks (createNewTracks tun clk st2)))"

definition running :: "tuning \<Rightarrow> (nat \<Rightarrow> int) \<Rightarrow> (mat \<Rightarrow> int list) \<Rightarrow> Tracker \<Rightarrow> error + Tracker" where
  "running tun clk Solve st =
     (if tracker_on st then
        (case (if targets st \<noteq> [] then running_cycle tun clk Solve st else Inr st) of
           Inl e \<Rightarrow> Inl e
         | Inr st1 \<Rightarrow> Inr (postTracks (cleanupTracks clk st1)))
      else Inr st)"

definition paused :: "Tracker \<Rightarrow> Tracker" where
  "paused st = st"

definition waitingToHalt :: "Tracker \<Rightarrow> Tracker" where
  "waitingToHalt st = (if tracker_on st then st\<lparr>tracker_on := False\<rparr> else st)"

section \<open>Runs of one Tracker\<close>

text \<open>
  The callbacks are invoked by the worker loop of \<^verbatim>\<open>Base\<close> and \<^verbatim>\<open>addMessage\<close> by the
  upstream stage; \<^verbatim>\<open>running\<close> holds \<^verbatim>\<open>targets_lock_\<close> throughout, so the two never
  overlap. A run is a list of such calls, in any order; it stops at the first error.
\<close>

datatype event =
  AddMessage "nat \<Rightarrow> bool" "BoxBuf list"
| WaitingToRun
| Running
| Paused
| WaitingToHalt

fun step :: "tuning \<Rightarrow> (nat \<Rightarrow> int) \<Rightarrow> (mat \<Rightarrow> int list) \<Rightarrow> event \<Rightarrow> Tracker \<Rightarrow> error + Tracker" where
  "step tun clk Solve (AddMessage try_lock_for boxes) st = Inr (snd (addMessage try_lock_for boxes st))"
| "step tun clk Solve WaitingToRun st = Inr (waitingToRun st)"
| "step tun clk Solve Running st = running tun clk Solve st"
| "step tun clk Solve Paused st = Inr (paused st)"
| "step tun clk Solve WaitingToHalt st = Inr (waitingToHalt st)"

fun exec :: "tuning \<Rightarrow> (nat \<Rightarrow> int) \<Rightarrow> (mat \<Rightarrow> int list) \<Rightarrow> event list \<Rightarrow> Tracker \<Rightarrow> error + Tracker" where
  "exec tun clk Solve [] st = Inr st"
| "exec tun clk Solve (e # es) st =
     (case step tun clk Solve e st of Inl err \<Rightarrow> Inl err | Inr st1 \<Rightarrow> exec tun clk Solve es st1)"

section \<open>Notions used in the statements\<close>

text \<open>The gating test of the assignment loop, for track \<open>a\<close> and target \<open>b\<close>.\<close>

definition gate :: "real \<Rightarrow> Track list \<Rightarrow> BoxBuf list \<Rightarrow> nat \<Rightarrow> nat \<Rightarrow> bool" where
  "gate md trs tgs a b \<longleftrightarrow>
     getDistance (trs ! a) (mid_x_of (tgs ! b)) (mid_y_of (tgs ! b)) \<le> md"

text \<open>
  The counter is the number of tracks created so far, the ids given at birth are
  \<open>1, 2, ...\<close> in this order (as 32-bit words), and the live tracks carry a subsequence
  of them.
\<close>

definition ids_consistent :: "Tracker \<Rightarrow> bool" where
  "ids_consistent st \<longleftrightarrow>
     track_cnt st = of_nat (length (born_log st)) \<and>
     map (\<lambda>j. 1 + of_nat j) [0..<length (born_log st)] = born_log st \<and>
     subseq (map id_t (tracks st)) (born_log st)"

text \<open>The operations that the Tracker applies to a track once it exists.\<close>

datatype track_op = OpUntouch | OpUpdateTime | OpUpdateMeasure | OpAddTarget int BoxBuf

fun apply_op :: "Track \<Rightarrow> track_op \<Rightarrow> Track" where
  "apply_op t OpUntouch = t\<lparr>touched := False\<rparr>"
| "apply_op t OpUpdateTime = updateTime t"
| "apply_op t OpUpdateMeasure = updateMeasure t"
| "apply_op t (OpAddTarget now box) = addTarget now box t"

section \<open>Example data\<close>

definition ex_tuning :: tuning where
  "ex_tuning = \<lparr>initial_error = 1, measure_variance = 1, process_variance = 1\<rparr>"

definition person_A :: BoxBuf where
  "person_A = \<lparr>type_b = kPerson, id_b = 0, x_b = 100, y_b = 100, w_b = 20, h_b = 40\<rparr>"

definition person_B :: BoxBuf where
  "person_B = \<lparr>type_b = kPerson, id_b = 0, x_b = 300, y_b = 100, w_b = 20, h_b = 40\<rparr>"

definition vehicle_B :: BoxBuf where
  "vehicle_B = \<lparr>type_b = kVehicle, id_b = 0, x_b = 300, y_b = 100, w_b = 20, h_b = 40\<rparr>"

definition all_types :: "Type set" where
  "all_types = {kPerson, kPet, kVehicle}"

definition always :: "nat \<Rightarrow> bool" where
  "always d = True"

definition busy :: "nat \<Rightarrow> bool" where
  "busy d = False"

text \<open>
  The first three calls of a run; \<open>two_persons clk\<close> is the state that they reach from
  a fresh tracker, under a clock that lets both tracks live: a tracker that is on, with
  a person at A and a person at B tracked under the ids 1 and 2.
\<close>

definition first_frame :: "event list" where
  "first_frame = [WaitingToRun, AddMessage always [person_A, person_B], Running]"

definition two_persons :: "(nat \<Rightarrow> int) \<Rightarrow> Tracker" where
  "two_persons clk =
     (create all_types True True 50 1000)
       \<lparr>track_cnt := 2, tracker_on := True,
        tracks := [Track_new ex_tuning (clk 0) 1 person_A, Track_new ex_tuning (clk 1) 2 person_B],
        clock_reads := 3, born_log := [1, 2],
        emitted := [[person_A\<lparr>id_b := 1\<rparr>, person_B\<lparr>id_b := 2\<rparr>]]\<rparr>"

definition person_C :: BoxBuf where
  "person_C = \<lparr>type_b = kPerson, id_b = 0, x_b = 300, y_b = 400, w_b = 20, h_b = 40\<rparr>"

text \<open>Two solver results, and a clock that advances by one millisecond at each read.\<close>

definition solver_01 :: "mat \<Rightarrow> int list" where
  "solver_01 m = [0, 1]"

definition solver_0_none :: "mat \<Rightarrow> int list" where
  "solver_0_none m = [0, - 1]"

definition clock_ms :: "nat \<Rightarrow> int" where
  "clock_ms n = 1000000 * int n"

text \<open>
  Two more clocks: both read 0 three times; from then on the first reads 1000.5 ms and
  the second 2 s.
\<close>

definition clock_late :: "nat \<Rightarrow> int" where
  "clock_late n = (if n < 3 then 0 else 1000500000)"

definition clock_expired :: "nat \<Rightarrow> int" where
  "clock_expired n = (if n < 3 then 0 else 2000000000)"

text \<open>
  A person seen in one frame and aged out in the next tick (with \<open>max_time\<close> 1 ms, under
  the clock that advances by one millisecond at each read); and this visit repeated,
  after the tracker is switched on.
\<close>

definition short_visit :: "event list" where
  "short_visit = [AddMessage always [person_A], Running, Running]"

definition visits :: "nat \<Rightarrow> event list" where
  "visits k = WaitingToRun # concat (replicate k short_visit)"

text \<open>
  A person three pixels below and two to the right of A; the \<^verbatim>\<open>double\<close> nearest to the
  square root of 13, which is \<^verbatim>\<open>0x1.cd82b446159f3p+1\<close>; a solver result for one track and
  one detection.
\<close>

definition person_D :: BoxBuf where
  "person_D = \<lparr>type_b = kPerson, id_b = 0, x_b = 102, y_b = 103, w_b = 20, h_b = 40\<rparr>"

definition fl_sqrt13 :: real where
  "fl_sqrt13 = 8118979690322419 / 2 ^ 51"

definition solver_0 :: "mat \<Rightarrow> int list" where
  "solver_0 m = [0]"

definition one_person :: "event list" where
  "one_person = [WaitingToRun, AddMessage always [person_A], Running]"

section \<open>The filter operations on one track\<close>

lemma updateTime_state [simp]: "state_t (updateTime t) = state_t t"
  by (simp add: updateTime_def Let_def)

lemma updateMeasure_state [simp]: "state_t (updateMeasure t) = state_t t"
  by (simp add: updateMeasure_def Let_def)

lemma addTarget_state [simp]: "state_t (addTarget now box t) = kActive"
  by (simp add: addTarget_def Let_def)

lemma apply_op_Active: "state_t t = kActive \<Longrightarrow> state_t (apply_op t op) = kActive"
  by (cases op) simp_all

lemma foldl_apply_op_Active: "state_t t = kActive \<Longrightarrow> state_t (foldl apply_op t ops) = kActive"
  by (induction ops arbitrary: t) (simp_all add: apply_op_Active)

lemma mat_vec_A:
  "mat_vec A_mat [x0, x1, x2, x3, x4, x5] = [x0 + x2, x1 + x3, x2 + x4, x3 + x5, 0, 0]"
  by (simp add: mat_vec_def A_mat_def dot_def)

lemma length6E:
  assumes "length (v :: 'a list) = 6"
  obtains x0 x1 x2 x3 x4 x5 where "v = [x0, x1, x2, x3, x4, x5]"
  using assms by (auto simp: length_Suc_conv numeral_eq_Suc)

text \<open>
  Claim C9 (velocity seeding in state Init). For a track in state \<^verbatim>\<open>kInit\<close> (with its
  six-component state vector), \<^verbatim>\<open>addTarget\<close> first sets the velocity components 2 and 3
  to the detection's centroid minus the filtered position, leaving the position as it
  is; the predict step that follows moves the position by exactly that difference;
  \<^verbatim>\<open>addTarget\<close> is this predict step followed by the promotion and the correction; the
  track is then \<^verbatim>\<open>kActive\<close>, and stays so under every sequence of later operations.
\<close>

theorem addTarget_init_seeds_velocity:
  assumes "state_t t = kInit" and "length (X_t t) = 6"
  shows "X_t (addTarget_seed now box t) ! 2 = mid_x_of box - X_t t ! 0 \<and>
         X_t (addTarget_seed now box t) ! 3 = mid_y_of box - X_t t ! 1 \<and>
         X_t (addTarget_seed now box t) ! 0 = X_t t ! 0 \<and>
         X_t (addTarget_seed now box t) ! 1 = X_t t ! 1 \<and>
         X_t (updateTime (addTarget_seed now box t)) ! 0 = X_t t ! 0 + (mid_x_of box - X_t t ! 0) \<and>
         X_t (updateTime (addTarget_seed now box t)) ! 1 = X_t t ! 1 + (mid_y_of box - X_t t ! 1) \<and>
         addTarget now box t =
           updateMeasure ((updateTime (addTarget_seed now box t))
                            \<lparr>state_t := kActive, Z_t := [mid_x_of box, mid_y_of box]\<rparr>) \<and>
         state_t (addTarget now box t) = kActive \<and>
         (\<forall>ops. state_t (foldl apply_op (addTarget now box t) ops) = kActive)"
proof -
  from assms(2) obtain x0 x1 x2 x3 x4 x5 where X: "X_t t = [x0, x1, x2, x3, x4, x5]"
    by (rule length6E)
  have seed: "X_t (addTarget_seed now box t) = [x0, x1, mid_x_of box - x0, mid_y_of box - x1, x4, x5]"
    using assms(1) X by (simp add: addTarget_seed_def Let_def mid_x_of_def mid_y_of_def)
  have pred: "X_t (updateTime (addTarget_seed now box t)) =
      [x0 + (mid_x_of box - x0), x1 + (mid_y_of box - x1),
       mid_x_of box - x0 + x4, mid_y_of box - x1 + x5, 0, 0]"
    by (simp add: updateTime_def Let_def seed mat_vec_A)
  have mids: "x_t (addTarget_seed now box t) + w_t (addTarget_seed now box t) / 2 = mid_x_of box"
             "y_t (addTarget_seed now box t) + h_t (addTarget_seed now box t) / 2 = mid_y_of box"
    by (simp_all add: addTarget_seed_def Let_def mid_x_of_def mid_y_of_def)
  have unfold: "addTarget now box t =
           updateMeasure ((updateTime (addTarget_seed now box t))
                            \<lparr>state_t := kActive, Z_t := [mid_x_of box, mid_y_of box]\<rparr>)"
    by (simp add: addTarget_def Let_def mids)
  have act: "\<forall>ops. state_t (foldl apply_op (addTarget now box t) ops) = kActive"
    by (simp add: foldl_apply_op_Active)
  show ?thesis
    using unfold act by (simp add: seed pred X)
qed

theorem addTarget_init_seeds_velocity_witness:
  "state_t (Track_new ex_tuning 0 1 person_A) = kInit \<and>
   length (X_t (Track_new ex_tuning 0 1 person_A)) = 6 \<and>
   X_t (addTarget_seed 7 person_B (Track_new ex_tuning 0 1 person_A)) ! 2 = 200 \<and>
   X_t (addTarget_seed 7 person_B (Track_new ex_tuning 0 1 person_A)) ! 3 = 0 \<and>
   X_t (updateTime (addTarget_seed 7 person_B (Track_new ex_tuning 0 1 person_A))) ! 0 = 310 \<and>
   state_t (addTarget 7 person_B (Track_new ex_tuning 0 1 person_A)) = kActive"
  using addTarget_init_seeds_velocity [of "Track_new ex_tuning 0 1 person_A" 7 person_B]
  by (simp add: Track_new_def person_A_def person_B_def mid_x_of_def mid_y_of_def ureal_def)

section \<open>Ingress\<close>

text \<open>
  Claim C10 (ingress error atomicity). If \<^verbatim>\<open>targets_lock_\<close> cannot be acquired within
  the timeout of 1000 microseconds, \<^verbatim>\<open>addMessage\<close> returns false and the whole Tracker
  state, \<open>targets\<close> included, is what it was.
\<close>

theorem addMessage_busy_unchanged:
  assumes "\<not> try_lock_for 1000"
  shows "addMessage try_lock_for boxes st = (False, st)"
  using assms by (simp add: addMessage_def Listener_timeout_def)

theorem addMessage_busy_unchanged_witness:
  "\<not> busy 1000 \<and>
   addMessage busy [person_A] (two_persons clock_ms) = (False, two_persons clock_ms)"
  using addMessage_busy_unchanged [of busy "[person_A]" "two_persons clock_ms"]
  by (simp add: busy_def)

section \<open>The assignment loop\<close>

lemma assign_loop_length:
  "assign_loop md clk i ks trs tgs n = Inr (trs', tgs', calls, n') \<Longrightarrow>
   length trs' = length trs \<and> length tgs' = length tgs"
proof (induction ks arbitrary: i trs tgs n trs' tgs' calls n')
  case Nil
  then show ?case by simp
next
  case (Cons k ks)
  then show ?case
    by (auto split: if_splits sum.splits prod.splits)
qed

lemma mid_of_id_update [simp]:
  "mid_x_of (b\<lparr>id_b := v\<rparr>) = mid_x_of b" "mid_y_of (b\<lparr>id_b := v\<rparr>) = mid_y_of b"
  by (simp_all add: mid_x_of_def mid_y_of_def)

lemma addTarget_id_irrelevant [simp]: "addTarget now (b\<lparr>id_b := v\<rparr>) t = addTarget now b t"
  by (simp add: addTarget_def addTarget_seed_def)

lemma assign_loop_below:
  "assign_loop md clk i ks trs tgs n = Inr (trs', tgs', calls, n') \<Longrightarrow>
   (\<forall>j. j \<notin> fst ` set calls \<longrightarrow> trs' ! j = trs ! j) \<and> (\<forall>a \<in> fst ` set calls. i \<le> a \<and> a < i + length ks)
   \<and> (\<forall>j. mid_x_of (tgs' ! j) = mid_x_of (tgs ! j) \<and> mid_y_of (tgs' ! j) = mid_y_of (tgs ! j) \<and> type_b (tgs' ! j) = type_b (tgs ! j))"
proof (induction ks arbitrary: i trs tgs n trs' tgs' calls n')
  case Nil
  then show ?case by simp
next
  case (Cons k ks)
  show ?case
  proof (cases "getDistance (trs ! i) (mid_x_of (tgs ! nat k)) (mid_y_of (tgs ! nat k)) \<le> md")
    case True
    with Cons.prems obtain calls0 where
      rec: "assign_loop md clk (Suc i) ks (trs[i := addTarget (clk n) (tgs ! nat k) (trs ! i)])
                   (tgs[nat k := (tgs ! nat k)\<lparr>id_b := - 1\<rparr>]) (Suc n) = Inr (trs', tgs', calls0, n')"
      and calls: "calls = (i, nat k) # calls0" and k: "0 \<le> k" "nat k < length tgs" "i < length trs"
      by (auto split: if_splits sum.splits prod.splits)
    from Cons.IH[OF rec] show ?thesis using calls k
      by (auto simp: nth_list_update)
  next
    case False
    with Cons.prems have
      rec: "assign_loop md clk (Suc i) ks trs tgs n = Inr (trs', tgs', calls, n')"
      by (auto split: if_splits sum.splits prod.splits)
    from Cons.IH[OF rec] show ?thesis by auto
  qed
qed


lemma mid_of_list_update:
  "mid_x_of (tgs[k := (tgs ! k)\<lparr>id_b := v\<rparr>] ! b) = mid_x_of (tgs ! b)"
  "mid_y_of (tgs[k := (tgs ! k)\<lparr>id_b := v\<rparr>] ! b) = mid_y_of (tgs ! b)"
proof -
  show "mid_x_of (tgs[k := (tgs ! k)\<lparr>id_b := v\<rparr>] ! b) = mid_x_of (tgs ! b)"
    by (cases "k < length tgs"; cases "b = k"; simp add: list_update_beyond)
  show "mid_y_of (tgs[k := (tgs ! k)\<lparr>id_b := v\<rparr>] ! b) = mid_y_of (tgs ! b)"
    by (cases "k < length tgs"; cases "b = k"; simp add: list_update_beyond)
qed

lemma gate_update:
  "a \<noteq> i \<Longrightarrow> gate md (trs[i := t]) (tgs[k := (tgs ! k)\<lparr>id_b := v\<rparr>]) a b = gate md trs tgs a b"
  by (simp add: gate_def mid_of_list_update)

lemma assign_loop_step:
  assumes "assign_loop md clk i (k # ks) trs tgs n = Inr (trs', tgs', calls, n')"
  shows "0 \<le> k \<and> nat k < length tgs \<and> i < length trs \<and>
     (if gate md trs tgs i (nat k)
      then \<exists>calls0. calls = (i, nat k) # calls0 \<and>
             assign_loop md clk (Suc i) ks (trs[i := addTarget (clk n) (tgs ! nat k) (trs ! i)])
               (tgs[nat k := (tgs ! nat k)\<lparr>id_b := - 1\<rparr>]) (Suc n) = Inr (trs', tgs', calls0, n')
      else assign_loop md clk (Suc i) ks trs tgs n = Inr (trs', tgs', calls, n'))"
proof -
  from assms have k: "0 \<le> k" "nat k < length tgs" "i < length trs"
    by (simp_all split: if_splits)
  show ?thesis
  proof (cases "gate md trs tgs i (nat k)")
    case True
    with assms k show ?thesis
      by (simp add: gate_def split: sum.splits prod.splits)
  next
    case False
    with assms k show ?thesis
      by (simp add: gate_def)
  qed
qed

lemma assign_loop_calls_in:
  "assign_loop md clk i ks trs tgs n = Inr (trs', tgs', calls, n') \<Longrightarrow> (a, b) \<in> set calls \<Longrightarrow>
   i \<le> a \<and> a < i + length ks \<and> ks ! (a - i) = int b \<and>
        b < length tgs \<and> a < length trs \<and> gate md trs tgs a b"
proof (induction ks arbitrary: i trs tgs n trs' tgs' calls n')
  case Nil
  then show ?case by simp
next
  case (Cons k ks)
  note st = assign_loop_step[OF Cons.prems(1)]
  have shift: "(k # ks) ! (a - i) = ks ! (a - Suc i)" if "Suc i \<le> a"
    using that by (simp add: Suc_diff_le)
  show ?case
  proof (cases "gate md trs tgs i (nat k)")
    case True
    with st obtain calls0 where calls: "calls = (i, nat k) # calls0" and
      rec: "assign_loop md clk (Suc i) ks (trs[i := addTarget (clk n) (tgs ! nat k) (trs ! i)])
               (tgs[nat k := (tgs ! nat k)\<lparr>id_b := - 1\<rparr>]) (Suc n) = Inr (trs', tgs', calls0, n')"
      by auto
    show ?thesis
    proof (cases "(a, b) = (i, nat k)")
      case True
      with st \<open>gate md trs tgs i (nat k)\<close> show ?thesis by simp
    next
      case False
      with Cons.prems(2) calls have "(a, b) \<in> set calls0" by auto
      from Cons.IH[OF rec this] have *: "Suc i \<le> a" "a < Suc i + length ks" "ks ! (a - Suc i) = int b"
        "b < length tgs" "a < length trs"
        "gate md (trs[i := addTarget (clk n) (tgs ! nat k) (trs ! i)])
                (tgs[nat k := (tgs ! nat k)\<lparr>id_b := - 1\<rparr>]) a b"
        by simp_all
      from *(1) have "a \<noteq> i" by simp
      from gate_update[OF this] *(6) have "gate md trs tgs a b" by simp
      with * shift show ?thesis by simp
    qed
  next
    case False
    with st have rec: "assign_loop md clk (Suc i) ks trs tgs n = Inr (trs', tgs', calls, n')"
      by simp
    from Cons.IH[OF rec Cons.prems(2)] have *: "Suc i \<le> a" "a < Suc i + length ks" "ks ! (a - Suc i) = int b"
        "b < length tgs" "a < length trs" "gate md trs tgs a b"
      by simp_all
    with shift show ?thesis by simp
  qed
qed

lemma assign_loop_calls_sorted:
  "assign_loop md clk i ks trs tgs n = Inr (trs', tgs', calls, n') \<Longrightarrow>
   sorted_wrt (<) (map fst calls)"
proof (induction ks arbitrary: i trs tgs n trs' tgs' calls n')
  case Nil
  then show ?case by simp
next
  case (Cons k ks)
  note st = assign_loop_step[OF Cons.prems(1)]
  show ?case
  proof (cases "gate md trs tgs i (nat k)")
    case True
    with st obtain calls0 where calls: "calls = (i, nat k) # calls0" and
      rec: "assign_loop md clk (Suc i) ks (trs[i := addTarget (clk n) (tgs ! nat k) (trs ! i)])
               (tgs[nat k := (tgs ! nat k)\<lparr>id_b := - 1\<rparr>]) (Suc n) = Inr (trs', tgs', calls0, n')"
      by auto
    have "i < fst p" if "p \<in> set calls0" for p
      using assign_loop_calls_in[OF rec, of "fst p" "snd p"] that by simp
    with Cons.IH[OF rec] calls show ?thesis by simp
  next
    case False
    with st have rec: "assign_loop md clk (Suc i) ks trs tgs n = Inr (trs', tgs', calls, n')"
      by simp
    from Cons.IH[OF rec] show ?thesis .
  qed
qed

lemma assign_loop_rejected:
  "assign_loop md clk i ks trs tgs n = Inr (trs', tgs', calls, n') \<Longrightarrow>
   i \<le> a \<Longrightarrow> a < i + length ks \<Longrightarrow> \<not> gate md trs tgs a (nat (ks ! (a - i))) \<Longrightarrow>
   a \<notin> fst ` set calls"
proof (induction ks arbitrary: i trs tgs n trs' tgs' calls n')
  case Nil
  then show ?case by simp
next
  case (Cons k ks)
  note st = assign_loop_step[OF Cons.prems(1)]
  have shift: "(k # ks) ! (a - i) = ks ! (a - Suc i)" if "Suc i \<le> a"
    using that by (simp add: Suc_diff_le)
  show ?case
  proof (cases "gate md trs tgs i (nat k)")
    case True
    with st obtain calls0 where calls: "calls = (i, nat k) # calls0" and
      rec: "assign_loop md clk (Suc i) ks (trs[i := addTarget (clk n) (tgs ! nat k) (trs ! i)])
               (tgs[nat k := (tgs ! nat k)\<lparr>id_b := - 1\<rparr>]) (Suc n) = Inr (trs', tgs', calls0, n')"
      by auto
    from Cons.prems(4) True have ai: "a \<noteq> i" by auto
    with Cons.prems have sa: "Suc i \<le> a" "a < Suc i + length ks" by simp_all
    from Cons.prems(4) shift[OF sa(1)] gate_update[OF ai]
    have "\<not> gate md (trs[i := addTarget (clk n) (tgs ! nat k) (trs ! i)])
                (tgs[nat k := (tgs ! nat k)\<lparr>id_b := - 1\<rparr>]) a (nat (ks ! (a - Suc i)))"
      by simp
    from Cons.IH[OF rec sa this] ai calls show ?thesis by simp
  next
    case False
    with st have rec: "assign_loop md clk (Suc i) ks trs tgs n = Inr (trs', tgs', calls, n')"
      by simp
    show ?thesis
    proof (cases "a = i")
      case True
      have "i < fst p" if "p \<in> set calls" for p
        using assign_loop_calls_in[OF rec, of "fst p" "snd p"] that by simp
      with True show ?thesis by fastforce
    next
      case False
      with Cons.prems have sa: "Suc i \<le> a" "a < Suc i + length ks" by simp_all
      from Cons.prems(4) shift[OF sa(1)]
      have "\<not> gate md trs tgs a (nat (ks ! (a - Suc i)))" by simp
      from Cons.IH[OF rec sa this] show ?thesis .
    qed
  qed
qed

lemma assign_loop_targets:
  "assign_loop md clk i ks trs tgs n = Inr (trs', tgs', calls, n') \<Longrightarrow> j < length tgs \<Longrightarrow>
   tgs' ! j = (if j \<in> snd ` set calls then (tgs ! j)\<lparr>id_b := - 1\<rparr> else tgs ! j)"
proof (induction ks arbitrary: i trs tgs n trs' tgs' calls n')
  case Nil
  then show ?case by simp
next
  case (Cons k ks)
  note st = assign_loop_step[OF Cons.prems(1)]
  show ?case
  proof (cases "gate md trs tgs i (nat k)")
    case True
    with st obtain calls0 where calls: "calls = (i, nat k) # calls0" and
      rec: "assign_loop md clk (Suc i) ks (trs[i := addTarget (clk n) (tgs ! nat k) (trs ! i)])
               (tgs[nat k := (tgs ! nat k)\<lparr>id_b := - 1\<rparr>]) (Suc n) = Inr (trs', tgs', calls0, n')"
      by auto
    from Cons.prems(2) have "j < length (tgs[nat k := (tgs ! nat k)\<lparr>id_b := - 1\<rparr>])" by simp
    from Cons.IH[OF rec this] calls Cons.prems(2) show ?thesis
      by (cases "j = nat k") simp_all
  next
    case False
    with st have rec: "assign_loop md clk (Suc i) ks trs tgs n = Inr (trs', tgs', calls, n')"
      by simp
    from Cons.IH[OF rec Cons.prems(2)] show ?thesis .
  qed
qed

lemma associateTracks_cases:
  assumes "associateTracks clk Solve st = Inr st'"
  obtains (skipped) "tracks st = [] \<or> targets st = []" "st' = st\<lparr>fused_log := []\<rparr>"
  | (solved) trs tgs calls n where "tracks st \<noteq> []" "targets st \<noteq> []"
      "assign_loop (max_dist st) clk 0 (Solve (cost_matrix (tracks st) (targets st)))
         (tracks st) (targets st) (clock_reads st) = Inr (trs, tgs, calls, n)"
      "st' = st\<lparr>tracks := trs, targets := filter (\<lambda>b. id_b b \<noteq> - 1) tgs,
                 clock_reads := n, fused_log := calls\<rparr>"
  using assms
  by (auto simp: associateTracks_def Let_def split: if_splits sum.splits prod.splits)

text \<open>
  Claim C5 (assignments are one-to-one). In an association pass that runs to its end,
  no track is fused twice; and when the solver's result assigns distinct, non-negative
  columns to distinct rows, no detection is fused into two tracks. Every fused pair is
  an entry of the solver's result.
\<close>

theorem associateTracks_one_to_one:
  assumes "associateTracks clk Solve st = Inr st'"
    and "distinct (Solve (cost_matrix (tracks st) (targets st)))"
    and "\<forall>k \<in> set (Solve (cost_matrix (tracks st) (targets st))). 0 \<le> k"
  shows "distinct (map fst (fused_log st')) \<and> distinct (map snd (fused_log st')) \<and>
         (\<forall>(a, b) \<in> set (fused_log st').
            a < length (Solve (cost_matrix (tracks st) (targets st))) \<and>
            Solve (cost_matrix (tracks st) (targets st)) ! a = int b)"
  using assms(1)
proof (cases rule: associateTracks_cases)
  case skipped
  then show ?thesis by simp
next
  case (solved trs tgs calls n)
  let ?ks = "Solve (cost_matrix (tracks st) (targets st))"
  have log: "fused_log st' = calls" using solved(4) by simp
  have inc: "sorted_wrt (<) (map fst calls)"
    by (rule assign_loop_calls_sorted[OF solved(3)])
  then have d1: "distinct (map fst calls)"
    by (simp add: strict_sorted_iff)
  have src: "a < length ?ks \<and> ?ks ! a = int b" if "(a, b) \<in> set calls" for a b
    using assign_loop_calls_in[OF solved(3) that] by simp
  have "inj_on snd (set calls)"
  proof (rule inj_onI)
    fix p q assume p: "p \<in> set calls" and q: "q \<in> set calls" and eq: "snd p = snd q"
    from src[of "fst p" "snd p"] p have 1: "fst p < length ?ks" "?ks ! fst p = int (snd p)" by simp_all
    from src[of "fst q" "snd q"] q have 2: "fst q < length ?ks" "?ks ! fst q = int (snd q)" by simp_all
    from 1 2 eq have "?ks ! fst p = ?ks ! fst q" by simp
    with 1(1) 2(1) assms(2) have "fst p = fst q"
      by (simp only: nth_eq_iff_index_eq)
    with eq show "p = q" by (simp add: prod_eq_iff)
  qed
  moreover from d1 have "distinct calls" by (simp add: distinct_map)
  ultimately have d2: "distinct (map snd calls)" by (simp add: distinct_map)
  from d1 d2 src log show ?thesis by auto
qed


lemma assign_loop_in_range:
  "assign_loop md clk i ks trs tgs n = Inr (trs', tgs', calls, n') \<Longrightarrow> a < length ks \<Longrightarrow>
   0 \<le> ks ! a \<and> nat (ks ! a) < length tgs \<and> i + a < length trs"
proof (induction ks arbitrary: i a trs tgs n trs' tgs' calls n')
  case Nil
  then show ?case by simp
next
  case (Cons k ks)
  note st = assign_loop_step[OF Cons.prems(1)]
  show ?case
  proof (cases a)
    case 0
    with st show ?thesis by simp
  next
    case (Suc a')
    with Cons.prems(2) have a': "a' < length ks" by simp
    show ?thesis
    proof (cases "gate md trs tgs i (nat k)")
      case True
      with st obtain calls0 where
        rec: "assign_loop md clk (Suc i) ks (trs[i := addTarget (clk n) (tgs ! nat k) (trs ! i)])
               (tgs[nat k := (tgs ! nat k)\<lparr>id_b := - 1\<rparr>]) (Suc n) = Inr (trs', tgs', calls0, n')"
        by auto
      from Cons.IH[OF rec a'] Suc show ?thesis by simp
    next
      case False
      with st have rec: "assign_loop md clk (Suc i) ks trs tgs n = Inr (trs', tgs', calls, n')"
        by simp
      from Cons.IH[OF rec a'] Suc show ?thesis by simp
    qed
  qed
qed

text \<open>
  Claim C6, as amended (gating soundness for the distance as computed). In an
  association pass that stays within the bounds of \<open>targets\<close> and \<open>tracks\<close>, every pair
  (track, detection) on which \<^verbatim>\<open>addTarget\<close> is called has \<^verbatim>\<open>getDistance\<close>, the distance
  computed in rounded \<^verbatim>\<open>double\<close> arithmetic from the filtered centroid that the track had
  before the pass to the detection's centroid, at most \<open>max_dist\<close>. A row whose assigned
  detection has a computed distance above \<open>max_dist\<close> is not fused and its track is left as
  it was; with a solver result free of repetitions the detection is fused into no
  track, and it stays in \<open>targets\<close> unless its \<open>id\<close> came in as the marker \<^verbatim>\<open>UINT_MAX\<close>. What a
  pass does after an out-of-range read is left out.
\<close>

theorem associateTracks_gating:
  assumes "associateTracks clk Solve st = Inr st'"
  shows "(\<forall>(a, b) \<in> set (fused_log st').
            getDistance (tracks st ! a) (mid_x_of (targets st ! b)) (mid_y_of (targets st ! b))
              \<le> max_dist st) \<and>
         (\<forall>a < length (Solve (cost_matrix (tracks st) (targets st))).
            tracks st \<noteq> [] \<and> targets st \<noteq> [] \<and>
            max_dist st <
              getDistance (tracks st ! a)
                (mid_x_of (targets st ! nat (Solve (cost_matrix (tracks st) (targets st)) ! a)))
                (mid_y_of (targets st ! nat (Solve (cost_matrix (tracks st) (targets st)) ! a)))
            \<longrightarrow>
              a \<notin> fst ` set (fused_log st') \<and> tracks st' ! a = tracks st ! a \<and>
              (distinct (Solve (cost_matrix (tracks st) (targets st))) \<longrightarrow>
                 nat (Solve (cost_matrix (tracks st) (targets st)) ! a) \<notin> snd ` set (fused_log st') \<and>
                 (id_b (targets st ! nat (Solve (cost_matrix (tracks st) (targets st)) ! a)) \<noteq> - 1 \<longrightarrow>
                   targets st ! nat (Solve (cost_matrix (tracks st) (targets st)) ! a)
                     \<in> set (targets st'))))"
  using assms
proof (cases rule: associateTracks_cases)
  case skipped
  then show ?thesis by auto
next
  case (solved trs tgs calls n)
  let ?ks = "Solve (cost_matrix (tracks st) (targets st))"
  note loop = solved(3)
  have log: "fused_log st' = calls" and trs: "tracks st' = trs"
    and tgs: "targets st' = filter (\<lambda>b. id_b b \<noteq> - 1) tgs"
    using solved(4) by simp_all
  have accepted: "getDistance (tracks st ! a) (mid_x_of (targets st ! b)) (mid_y_of (targets st ! b))
              \<le> max_dist st" if "(a, b) \<in> set calls" for a b
    using assign_loop_calls_in[OF loop that] by (simp add: gate_def)
  have rejected: "a \<notin> fst ` set calls \<and> trs ! a = tracks st ! a \<and>
      (distinct ?ks \<longrightarrow> nat (?ks ! a) \<notin> snd ` set calls \<and>
         (id_b (targets st ! nat (?ks ! a)) \<noteq> - 1 \<longrightarrow>
            targets st ! nat (?ks ! a) \<in> set (filter (\<lambda>b. id_b b \<noteq> - 1) tgs)))"
    if a: "a < length ?ks" and far: "max_dist st < getDistance (tracks st ! a)
                (mid_x_of (targets st ! nat (?ks ! a))) (mid_y_of (targets st ! nat (?ks ! a)))"
    for a
  proof -
    from far have ng: "\<not> gate (max_dist st) (tracks st) (targets st) a (nat (?ks ! (a - 0)))"
      by (simp add: gate_def)
    from assign_loop_rejected[OF loop _ _ ng] a have notin: "a \<notin> fst ` set calls" by simp
    with assign_loop_below[OF loop] have same: "trs ! a = tracks st ! a" by blast
    from assign_loop_in_range[OF loop a] have rng: "0 \<le> ?ks ! a" "nat (?ks ! a) < length (targets st)"
      by simp_all
    have det: "nat (?ks ! a) \<notin> snd ` set calls" if d: "distinct ?ks"
    proof
      assume "nat (?ks ! a) \<in> snd ` set calls"
      then obtain a' where in_calls: "(a', nat (?ks ! a)) \<in> set calls" by force
      from assign_loop_calls_in[OF loop in_calls] have a': "a' < length ?ks" "?ks ! a' = int (nat (?ks ! a))"
        by simp_all
      with rng have "?ks ! a' = ?ks ! a" by simp
      with a a' d have "a' = a" by (simp only: nth_eq_iff_index_eq)
      with in_calls notin show False by force
    qed
    have kept: "targets st ! nat (?ks ! a) \<in> set (filter (\<lambda>b. id_b b \<noteq> - 1) tgs)"
      if d: "distinct ?ks" and nid: "id_b (targets st ! nat (?ks ! a)) \<noteq> - 1"
    proof -
      from assign_loop_targets[OF loop rng(2)] det[OF d]
      have "tgs ! nat (?ks ! a) = targets st ! nat (?ks ! a)" by simp
      moreover from assign_loop_length[OF loop] rng(2) have "nat (?ks ! a) < length tgs" by simp
      ultimately have "targets st ! nat (?ks ! a) \<in> set tgs" by (metis nth_mem)
      with nid show ?thesis by simp
    qed
    from notin same det kept show ?thesis by blast
  qed
  from accepted rejected show ?thesis
    unfolding log trs tgs by blast
qed

section \<open>Track ids over a run\<close>

lemma map_update_same: "f y = f (xs ! i) \<Longrightarrow> map f (xs[i := y]) = map f xs"
  by (metis list_update_id map_update)

lemma updateTime_fields [simp]:
  "touched (updateTime t) = True" "stamp (updateTime t) = stamp t"
  "id_t (updateTime t) = id_t t" "type_t (updateTime t) = type_t t"
  by (simp_all add: updateTime_def Let_def)

lemma updateMeasure_fields [simp]:
  "touched (updateMeasure t) = touched t" "stamp (updateMeasure t) = stamp t"
  "id_t (updateMeasure t) = id_t t" "type_t (updateMeasure t) = type_t t"
  by (simp_all add: updateMeasure_def Let_def)

lemma addTarget_seed_fields [simp]:
  "touched (addTarget_seed now b t) = touched t" "stamp (addTarget_seed now b t) = now"
  "id_t (addTarget_seed now b t) = id_t t" "type_t (addTarget_seed now b t) = type_t t"
  by (simp_all add: addTarget_seed_def Let_def)

lemma addTarget_fields [simp]:
  "touched (addTarget now b t) = True" "stamp (addTarget now b t) = now"
  "id_t (addTarget now b t) = id_t t" "type_t (addTarget now b t) = type_t t"
  by (simp_all add: addTarget_def Let_def)

lemma Track_new_fields [simp]:
  "touched (Track_new tun now i b) = True" "stamp (Track_new tun now i b) = now"
  "id_t (Track_new tun now i b) = i" "type_t (Track_new tun now i b) = type_b b"
  "state_t (Track_new tun now i b) = kInit"
  by (simp_all add: Track_new_def Let_def)

lemma assign_loop_ids:
  "assign_loop md clk i ks trs tgs n = Inr (trs', tgs', calls, n') \<Longrightarrow>
   map id_t trs' = map id_t trs \<and> map type_t trs' = map type_t trs"
proof (induction ks arbitrary: i trs tgs n trs' tgs' calls n')
  case Nil
  then show ?case by simp
next
  case (Cons k ks)
  note st = assign_loop_step[OF Cons.prems(1)]
  show ?case
  proof (cases "gate md trs tgs i (nat k)")
    case True
    with st obtain calls0 where
      rec: "assign_loop md clk (Suc i) ks (trs[i := addTarget (clk n) (tgs ! nat k) (trs ! i)])
               (tgs[nat k := (tgs ! nat k)\<lparr>id_b := - 1\<rparr>]) (Suc n) = Inr (trs', tgs', calls0, n')"
      by auto
    from Cons.IH[OF rec] show ?thesis
      by (simp add: map_update_same)
  next
    case False
    with st have rec: "assign_loop md clk (Suc i) ks trs tgs n = Inr (trs', tgs', calls, n')"
      by simp
    from Cons.IH[OF rec] show ?thesis .
  qed
qed

lemma create_loop_effect:
  "create_loop tun clk bs st =
     st\<lparr>track_cnt := track_cnt st + of_nat (length bs),
        tracks := tracks st @ map (\<lambda>j. Track_new tun (clk (clock_reads st + j)) (track_cnt st + 1 + of_nat j) (bs ! j)) [0..<length bs],
        clock_reads := clock_reads st + length bs,
        born_log := born_log st @ map (\<lambda>j. track_cnt st + 1 + of_nat j) [0..<length bs]\<rparr>"
proof (induction bs arbitrary: st)
  case Nil
  then show ?case by simp
next
  case (Cons b bs)
  show ?case
  proof -
    have shift: "map F [Suc 0..<Suc (length bs)] = map (\<lambda>j. F (Suc j)) [0..<length bs]" for F :: "nat \<Rightarrow> 'z"
      by (simp only: map_Suc_upt[symmetric] map_map o_def)
    have hd: "[0..<length (b # bs)] = 0 # [Suc 0..<Suc (length bs)]"
      by (simp add: upt_conv_Cons del: upt_Suc)
    show ?thesis
      by (simp only: create_loop.simps Cons.IH Let_def hd list.map shift)
         (simp add: algebra_simps)
  qed
qed


lemma subseq_strict_sorted:
  fixes ys :: "'a::linorder list"
  assumes "subseq xs ys" and "sorted_wrt (<) ys"
  shows "sorted_wrt (<) xs"
proof -
  from assms(1) obtain N where "xs = nths ys N"
    by (auto simp: subseq_conv_nths)
  with assms(2) show ?thesis
    by (simp add: strict_sorted_iff sorted_nths)
qed

lemma born_ids_sorted:
  assumes "n < 2 ^ 32"
  shows "sorted_wrt (<) (map (\<lambda>j. 1 + of_nat j :: 32 word) [0..<n])"
proof -
  have "(1 + of_nat a :: 32 word) < 1 + of_nat b" if "a \<in> set [0..<n]" "b \<in> set [0..<n]" "a < b" for a b
  proof -
    from that assms have "Suc a < 2 ^ 32" "Suc b < 2 ^ 32" by simp_all
    with that(3) have "(of_nat (Suc a) :: 32 word) < of_nat (Suc b)"
      by (simp add: word_less_nat_alt unat_of_nat del: of_nat_Suc)
    then show ?thesis by simp
  qed
  then have "sorted_wrt (\<lambda>a b. (1 + of_nat a :: 32 word) < 1 + of_nat b) [0..<n]"
    by (rule sorted_wrt_mono_rel[OF _ sorted_wrt_upt])
  then show ?thesis by (simp only: sorted_wrt_map)
qed

lemma ids_consistent_create: "ids_consistent (create types q e md mt)"
  by (simp add: ids_consistent_def create_def init_def)

lemma addMessage_ids: "ids_consistent st \<Longrightarrow> ids_consistent (snd (addMessage lk boxes st))"
  by (simp add: ids_consistent_def addMessage_def)

lemma untouchTracks_ids: "ids_consistent st \<Longrightarrow> ids_consistent (untouchTracks st)"
  by (simp add: ids_consistent_def untouchTracks_def o_def)

lemma associateTracks_ids:
  assumes "associateTracks clk Solve st = Inr st'" and "ids_consistent st"
  shows "ids_consistent st'"
  using assms(1)
proof (cases rule: associateTracks_cases)
  case skipped
  with assms(2) show ?thesis by (simp add: ids_consistent_def)
next
  case (solved trs tgs calls n)
  from assign_loop_ids[OF solved(3)] assms(2) solved(4) show ?thesis
    by (simp add: ids_consistent_def)
qed

lemma createNewTracks_fields:
  "track_cnt (createNewTracks tun clk st) = track_cnt st + of_nat (length (targets st))"
  "born_log (createNewTracks tun clk st) =
     born_log st @ map (\<lambda>j. track_cnt st + 1 + of_nat j) [0..<length (targets st)]"
  "map id_t (tracks (createNewTracks tun clk st)) =
     map id_t (tracks st) @ map (\<lambda>j. track_cnt st + 1 + of_nat j) [0..<length (targets st)]"
  "targets (createNewTracks tun clk st) = []"
  "fused_log (createNewTracks tun clk st) = fused_log st"
  "max_time (createNewTracks tun clk st) = max_time st"
  "enc (createNewTracks tun clk st) = enc st"
  "emitted (createNewTracks tun clk st) = emitted st"
  by (simp_all add: createNewTracks_def create_loop_effect Let_def o_def)

lemma createNewTracks_ids:
  assumes "ids_consistent st"
  shows "ids_consistent (createNewTracks tun clk st)"
proof -
  let ?n = "length (born_log st)" and ?m = "length (targets st)"
  let ?f = "\<lambda>j. 1 + of_nat j :: 32 word"
  from assms have cnt: "track_cnt st = of_nat ?n" and born: "map ?f [0..<?n] = born_log st"
    and sub: "subseq (map id_t (tracks st)) (born_log st)"
    by (simp_all add: ids_consistent_def)
  have "map (\<lambda>j. j + ?n) [0..<?m] = [?n..<?m + ?n]"
    by (rule map_add_upt)
  then have shift: "map (\<lambda>j. j + ?n) [0..<?m] = [?n..<?n + ?m]"
    by (simp only: add.commute[of ?m ?n])
  have "map (\<lambda>j. track_cnt st + 1 + of_nat j) [0..<?m] = map ?f (map (\<lambda>j. j + ?n) [0..<?m])"
    by (simp only: map_map o_def cnt of_nat_add) (simp add: algebra_simps)
  then have new: "map (\<lambda>j. track_cnt st + 1 + of_nat j) [0..<?m] = map ?f [?n..<?n + ?m]"
    by (simp only: shift)
  have split: "[0..<?n + ?m] = [0..<?n] @ [?n..<?n + ?m]"
    by (rule upt_add_eq_append) simp
  have b': "map ?f [0..<?n + ?m] = born_log (createNewTracks tun clk st)"
    by (simp only: createNewTracks_fields new split map_append born)
  have len: "length (born_log (createNewTracks tun clk st)) = ?n + ?m"
    by (simp add: createNewTracks_fields)
  have "subseq (map id_t (tracks st) @ map ?f [?n..<?n + ?m])
               (born_log st @ map ?f [?n..<?n + ?m])"
    using sub by simp
  then have s': "subseq (map id_t (tracks (createNewTracks tun clk st)))
                        (born_log (createNewTracks tun clk st))"
    by (simp only: createNewTracks_fields new)
  have c': "track_cnt (createNewTracks tun clk st) = of_nat (?n + ?m)"
    by (simp add: createNewTracks_fields cnt)
  from b' s' c' show ?thesis
    unfolding ids_consistent_def len by simp
qed

lemma touchTracks_ids: "ids_consistent st \<Longrightarrow> ids_consistent (touchTracks st)"
proof -
  have "map id_t (map (\<lambda>t. if \<not> touched t then updateTime t else t) trs) = map id_t trs" for trs
    by (induction trs) simp_all
  then show "ids_consistent st \<Longrightarrow> ids_consistent (touchTracks st)"
    by (simp add: ids_consistent_def touchTracks_def del: map_map)
qed

lemma cleanupTracks_ids:
  assumes "ids_consistent st"
  shows "ids_consistent (cleanupTracks clk st)"
proof -
  let ?P = "\<lambda>t. \<not> max_time st < span_count (clk (clock_reads st)) (stamp t)"
  have "subseq (map id_t (filter ?P (tracks st))) (map id_t (tracks st))"
    by (simp add: subseq_map)
  moreover from assms have "subseq (map id_t (tracks st)) (born_log st)"
    by (simp add: ids_consistent_def)
  ultimately have "subseq (map id_t (filter ?P (tracks st))) (born_log st)"
    by (rule subseq_order.trans)
  with assms show ?thesis
    by (simp add: ids_consistent_def cleanupTracks_def Let_def)
qed

lemma postTracks_ids: "ids_consistent st \<Longrightarrow> ids_consistent (postTracks st)"
  by (simp add: ids_consistent_def postTracks_def Let_def)

lemma running_ids:
  assumes "running tun clk Solve st = Inr st'" and "ids_consistent st"
  shows "ids_consistent st'"
proof (cases "tracker_on st")
  case False
  with assms show ?thesis by (simp add: running_def)
next
  case on: True
  show ?thesis
  proof (cases "targets st = []")
    case True
    with on assms(1) have "st' = postTracks (cleanupTracks clk st)"
      by (simp add: running_def)
    with assms(2) show ?thesis by (simp add: postTracks_ids cleanupTracks_ids)
  next
    case False
    with on assms(1) obtain st2 where
      a: "associateTracks clk Solve (untouchTracks st) = Inr st2" and
      r: "st' = postTracks (cleanupTracks clk (touchTracks (createNewTracks tun clk st2)))"
      by (auto simp: running_def running_cycle_def split: sum.splits)
    from associateTracks_ids[OF a untouchTracks_ids[OF assms(2)]] r show ?thesis
      by (simp add: postTracks_ids cleanupTracks_ids touchTracks_ids createNewTracks_ids)
  qed
qed

lemma step_ids:
  assumes "step tun clk Solve ev st = Inr st'" and "ids_consistent st"
  shows "ids_consistent st'"
  using assms
proof (cases ev)
  case (AddMessage lk boxes)
  with assms show ?thesis by (auto simp: addMessage_ids)
next
  case WaitingToRun
  with assms show ?thesis by (auto simp: waitingToRun_def ids_consistent_def)
next
  case Running
  with assms show ?thesis by (auto intro: running_ids)
next
  case Paused
  with assms show ?thesis by (auto simp: paused_def)
next
  case WaitingToHalt
  with assms show ?thesis by (auto simp: waitingToHalt_def ids_consistent_def)
qed

lemma exec_ids:
  "exec tun clk Solve evs st = Inr st' \<Longrightarrow> ids_consistent st \<Longrightarrow> ids_consistent st'"
proof (induction evs arbitrary: st)
  case Nil
  then show ?case by simp
next
  case (Cons ev evs)
  from Cons.prems(1) obtain st1 where s: "step tun clk Solve ev st = Inr st1"
    and e: "exec tun clk Solve evs st1 = Inr st'"
    by (auto split: sum.splits)
  from Cons.IH[OF e step_ids[OF s Cons.prems(2)]] show ?case .
qed

text \<open>
  Claim C8, as amended (id monotonicity while the counter fits). In every run of one
  Tracker from \<^verbatim>\<open>create\<close> in which every association pass stays within the bounds of
  \<open>targets\<close> and \<open>tracks\<close> and fewer than \<open>2^32\<close> tracks have been created, the ids given at
  birth strictly increase in creation order and none is given twice; the live tracks
  carry a subsequence of them, so their ids are strictly increasing and distinct too.
  What a run does after an out-of-range read is left out.
\<close>

theorem ids_increase_while_counter_fits:
  assumes "exec tun clk Solve evs (create types q e md mt) = Inr st"
    and "length (born_log st) < 2 ^ 32"
  shows "sorted_wrt (<) (born_log st) \<and> distinct (born_log st) \<and>
         subseq (map id_t (tracks st)) (born_log st) \<and>
         sorted_wrt (<) (map id_t (tracks st)) \<and> distinct (map id_t (tracks st))"
proof -
  from exec_ids[OF assms(1) ids_consistent_create]
  have born: "map (\<lambda>j. 1 + of_nat j) [0..<length (born_log st)] = born_log st"
    and sub: "subseq (map id_t (tracks st)) (born_log st)"
    by (simp_all add: ids_consistent_def)
  from born_ids_sorted[OF assms(2)] have s: "sorted_wrt (<) (born_log st)"
    by (simp only: born)
  from subseq_strict_sorted[OF sub s] have s2: "sorted_wrt (<) (map id_t (tracks st))" .
  from s s2 sub show ?thesis by (simp add: strict_sorted_iff)
qed

section \<open>One tick\<close>

lemma copy_if_eq:
  "j + length (filter P bs) \<le> length dst \<Longrightarrow>
   copy_if P bs dst j = take j dst @ filter P bs @ drop (j + length (filter P bs)) dst"
proof (induction bs arbitrary: dst j)
  case Nil
  then show ?case by simp
next
  case (Cons b bs)
  show ?case
  proof (cases "P b")
    case True
    with Cons.prems have len: "Suc j + length (filter P bs) \<le> length (dst[j := b])" and j: "j < length dst"
      by simp_all
    have "copy_if P (b # bs) dst j = copy_if P bs (dst[j := b]) (Suc j)"
      using True by simp
    also have "\<dots> = take (Suc j) (dst[j := b]) @ filter P bs @
        drop (Suc j + length (filter P bs)) (dst[j := b])"
      by (rule Cons.IH[OF len])
    also have "take (Suc j) (dst[j := b]) = take j dst @ [b]"
      using j by (simp add: take_Suc_conv_app_nth)
    also have "drop (Suc j + length (filter P bs)) (dst[j := b]) =
        drop (j + length (filter P (b # bs))) dst"
      using True by simp
    finally show ?thesis using True by simp
  next
    case False
    with Cons.prems Cons.IH[of j dst] show ?thesis by simp
  qed
qed

lemma addMessage_targets:
  assumes "try_lock_for Listener_timeout"
  shows "targets (snd (addMessage try_lock_for boxes st)) =
     filter (\<lambda>box. type_b box \<in> target_types st) boxes @
     drop (length (filter (\<lambda>box. type_b box \<in> target_types st) boxes))
       (resize (targets st) (length boxes))"
proof -
  have "length (resize (targets st) (length boxes)) = length boxes"
    by (simp add: resize_def)
  then have "0 + length (filter (\<lambda>box. type_b box \<in> target_types st) boxes)
      \<le> length (resize (targets st) (length boxes))"
    by simp
  from copy_if_eq[OF this] assms show ?thesis
    by (simp add: addMessage_def)
qed

lemma updateTime_untouch: "updateTime (t\<lparr>touched := False\<rparr>) = updateTime t"
  by (simp add: updateTime_def Let_def)

lemma createNewTracks_tracks:
  "tracks (createNewTracks tun clk st) =
     tracks st @ map (\<lambda>j. Track_new tun (clk (clock_reads st + j)) (track_cnt st + 1 + of_nat j)
                          (targets st ! j)) [0..<length (targets st)]"
  "clock_reads (createNewTracks tun clk st) = clock_reads st + length (targets st)"
  "tracker_on (createNewTracks tun clk st) = tracker_on st"
  by (simp_all add: createNewTracks_def create_loop_effect Let_def)

lemma associateTracks_tracks:
  assumes "associateTracks clk Solve st = Inr st'"
  shows "length (tracks st') = length (tracks st) \<and>
         (\<forall>i. i \<notin> fst ` set (fused_log st') \<longrightarrow> tracks st' ! i = tracks st ! i) \<and>
         map id_t (tracks st') = map id_t (tracks st) \<and>
         track_cnt st' = track_cnt st \<and> born_log st' = born_log st \<and>
         max_time st' = max_time st \<and> enc st' = enc st \<and> emitted st' = emitted st \<and>
         tracker_on st' = tracker_on st"
  using assms
proof (cases rule: associateTracks_cases)
  case skipped
  then show ?thesis by simp
next
  case (solved trs tgs calls n)
  from assign_loop_length[OF solved(3)] assign_loop_below[OF solved(3)]
    assign_loop_ids[OF solved(3)] solved(4)
  show ?thesis by simp
qed

lemma running_cycle_cases:
  assumes "running_cycle tun clk Solve st = Inr st1"
  obtains st2 where "associateTracks clk Solve (untouchTracks st) = Inr st2"
    "st1 = touchTracks (createNewTracks tun clk st2)"
  using assms by (auto simp: running_cycle_def split: sum.splits)

lemma running_cycle_fields:
  assumes "running_cycle tun clk Solve st = Inr st1"
  shows "max_time st1 = max_time st \<and> enc st1 = enc st \<and> emitted st1 = emitted st \<and>
         tracker_on st1 = tracker_on st \<and>
         map id_t (tracks st1) =
           map id_t (tracks st) @ drop (length (born_log st)) (born_log st1) \<and>
         take (length (born_log st)) (born_log st1) = born_log st"
  using assms
proof (cases rule: running_cycle_cases)
  case (1 st2)
  have ids: "id_t (if c then updateTime t else t) = id_t t" for c t
    by simp
  from associateTracks_tracks[OF 1(1)] show ?thesis
    unfolding 1(2)
    by (simp add: touchTracks_def createNewTracks_fields createNewTracks_tracks(2,3) ids
        untouchTracks_def o_def)
qed

text \<open>
  Claim C4, as amended (one predict step for unmatched tracks, when there are targets).
  In the guarded block of a tick, every track that existed before and is not fused in
  the association pass becomes \<^verbatim>\<open>updateTime\<close> of what it was: exactly one predict step.
  A tick of a tracker that is on runs this block if and only if \<open>targets\<close> is not empty;
  with empty \<open>targets\<close> it only sweeps and posts: the surviving tracks are unchanged, no
  predict step is taken and no track is created.
\<close>

theorem unmatched_tracks_predicted_once:
  "(\<forall>st1. running_cycle tun clk Solve st = Inr st1 \<longrightarrow>
       (\<forall>i < length (tracks st). i \<notin> fst ` set (fused_log st1) \<longrightarrow>
          i < length (tracks st1) \<and> tracks st1 ! i = updateTime (tracks st ! i))) \<and>
   (tracker_on st \<and> targets st \<noteq> [] \<longrightarrow>
      running tun clk Solve st =
        (case running_cycle tun clk Solve st of
           Inl e \<Rightarrow> Inl e
         | Inr st1 \<Rightarrow> Inr (postTracks (cleanupTracks clk st1)))) \<and>
   (tracker_on st \<and> targets st = [] \<longrightarrow>
      running tun clk Solve st = Inr (postTracks (cleanupTracks clk st)) \<and>
      tracks (postTracks (cleanupTracks clk st)) =
        filter (\<lambda>t. \<not> max_time st < span_count (clk (clock_reads st)) (stamp t)) (tracks st) \<and>
      born_log (postTracks (cleanupTracks clk st)) = born_log st)"
proof (intro conjI allI impI)
  fix st1 i
  assume run: "running_cycle tun clk Solve st = Inr st1" and i: "i < length (tracks st)"
    and un: "i \<notin> fst ` set (fused_log st1)"
  from run obtain st2 where a: "associateTracks clk Solve (untouchTracks st) = Inr st2"
    and st1: "st1 = touchTracks (createNewTracks tun clk st2)"
    by (rule running_cycle_cases)
  note at = associateTracks_tracks[OF a]
  from st1 have log: "fused_log st1 = fused_log st2"
    by (simp add: touchTracks_def createNewTracks_fields)
  from at i have len2: "i < length (tracks st2)" by (simp add: untouchTracks_def)
  from at un log i have t2: "tracks st2 ! i = (tracks st ! i)\<lparr>touched := False\<rparr>"
    by (simp add: untouchTracks_def)
  from len2 have t3: "tracks (createNewTracks tun clk st2) ! i = tracks st2 ! i"
    by (simp add: createNewTracks_tracks nth_append)
  from len2 have len3: "i < length (tracks (createNewTracks tun clk st2))"
    by (simp add: createNewTracks_tracks)
  from len3 show "i < length (tracks st1)"
    by (simp add: st1 touchTracks_def)
  from len3 t3 t2 show "tracks st1 ! i = updateTime (tracks st ! i)"
    by (simp add: st1 touchTracks_def updateTime_untouch)
qed (simp_all add: running_def postTracks_def cleanupTracks_def Let_def)

section \<open>Age-out and later emissions\<close>

lemma span_count_whole_ms:
  assumes "0 \<le> d" and "d < 2 ^ 32 * 1000000"
  shows "unat (span_count (s + d) s) = nat (d div 1000000)"
proof -
  have q: "0 \<le> d div 1000000" "d div 1000000 < 2 ^ 32"
    using assms by (simp_all add: div_less_iff_less_mult pos_imp_zdiv_nonneg_iff)
  have "(s + d - s) sdiv 1000000 = d div 1000000"
    using assms(1) by (simp add: signed_divide_int_def sgn_if)
  then have "span_count (s + d) s = (word_of_int (d div 1000000) :: 32 word)"
    by (simp add: span_count_def)
  moreover have "unat (word_of_int (d div 1000000) :: 32 word) = nat (d div 1000000)"
    using q by (simp add: unat_eq_nat_uint uint_word_of_int)
  ultimately show ?thesis by simp
qed

lemma span_count_expired:
  assumes "(int (unat (m :: 32 word)) + 1) * 1000000 \<le> now - s" and "now - s < 2 ^ 32 * 1000000"
  shows "m < span_count now s"
proof -
  let ?d = "now - s"
  have d0: "0 \<le> ?d"
  proof -
    have "0 \<le> (int (unat m) + 1) * 1000000" by simp
    with assms(1) show ?thesis by linarith
  qed
  from span_count_whole_ms[OF d0 assms(2), of s]
  have u: "unat (span_count now s) = nat (?d div 1000000)" by simp
  have "(int (unat m) + 1) * 1000000 div 1000000 \<le> ?d div 1000000"
    using assms(1) by (rule zdiv_mono1) simp
  then have "int (unat m) + 1 \<le> ?d div 1000000" by simp
  then have "unat m < nat (?d div 1000000)" by linarith
  with u show ?thesis by (simp add: word_less_nat_alt)
qed

lemma TrackBuf_of_id [simp]: "id_b (TrackBuf_of t) = id_t t" "type_b (TrackBuf_of t) = type_t t"
  by (simp_all add: TrackBuf_of_def)

lemma post_cleanup_fields:
  "tracks (postTracks (cleanupTracks clk st)) =
     filter (\<lambda>t. \<not> max_time st < span_count (clk (clock_reads st)) (stamp t)) (tracks st)"
  "born_log (postTracks (cleanupTracks clk st)) = born_log st"
  "emitted (postTracks (cleanupTracks clk st)) =
     (if enc st then [map TrackBuf_of (tracks (postTracks (cleanupTracks clk st)))] else [])
     @ emitted st"
  by (simp_all add: postTracks_def cleanupTracks_def Let_def)


lemma post_cleanup_later:
  assumes "born_log st1 = born_log st @ nb" and "emitted st1 = emitted st"
    and "id_t ` set (tracks st1) \<subseteq> id_t ` set (tracks st) \<union> set nb"
  shows "\<exists>nb ne. born_log (postTracks (cleanupTracks clk st1)) = born_log st @ nb \<and>
      emitted (postTracks (cleanupTracks clk st1)) = ne @ emitted st \<and>
      id_t ` set (tracks (postTracks (cleanupTracks clk st1))) \<subseteq> id_t ` set (tracks st) \<union> set nb \<and>
      (\<forall>l \<in> set ne. id_b ` set l \<subseteq> id_t ` set (tracks (postTracks (cleanupTracks clk st1))))"
proof -
  let ?st' = "postTracks (cleanupTracks clk st1)"
  let ?ne = "if enc st1 then [map TrackBuf_of (tracks ?st')] else []"
  have sub: "set (tracks ?st') \<subseteq> set (tracks st1)"
    by (simp add: post_cleanup_fields(1))
  have 1: "born_log ?st' = born_log st @ nb"
    using assms(1) by (simp add: post_cleanup_fields(2))
  have 2: "emitted ?st' = ?ne @ emitted st"
    using assms(2) by (simp only: post_cleanup_fields(3))
  have 3: "id_t ` set (tracks ?st') \<subseteq> id_t ` set (tracks st) \<union> set nb"
    using sub assms(3) by blast
  have 4: "\<forall>l \<in> set ?ne. id_b ` set l \<subseteq> id_t ` set (tracks ?st')"
    by (simp add: image_image)
  from 1 2 3 4 show ?thesis by blast
qed

lemma running_later:
  assumes "running tun clk Solve st = Inr st'"
  shows "\<exists>nb ne. born_log st' = born_log st @ nb \<and> emitted st' = ne @ emitted st \<and>
      id_t ` set (tracks st') \<subseteq> id_t ` set (tracks st) \<union> set nb \<and>
      (\<forall>l \<in> set ne. id_b ` set l \<subseteq> id_t ` set (tracks st'))"
proof (cases "tracker_on st")
  case False
  with assms have "st' = st" by (simp add: running_def)
  then have "born_log st' = born_log st @ [] \<and> emitted st' = [] @ emitted st \<and>
      id_t ` set (tracks st') \<subseteq> id_t ` set (tracks st) \<union> set [] \<and>
      (\<forall>l \<in> set []. id_b ` set l \<subseteq> id_t ` set (tracks st'))"
    by simp
  then show ?thesis by blast
next
  case on: True
  show ?thesis
  proof (cases "targets st = []")
    case True
    with on assms have st': "st' = postTracks (cleanupTracks clk st)"
      by (simp add: running_def)
    have "born_log st = born_log st @ []" "emitted st = emitted st"
      "id_t ` set (tracks st) \<subseteq> id_t ` set (tracks st) \<union> set []"
      by simp_all
    from post_cleanup_later[OF this] show ?thesis unfolding st' .
  next
    case False
    with on assms obtain st1 where c: "running_cycle tun clk Solve st = Inr st1"
      and st': "st' = postTracks (cleanupTracks clk st1)"
      by (auto simp: running_def split: sum.splits)
    let ?nb = "drop (length (born_log st)) (born_log st1)"
    note f = running_cycle_fields[OF c]
    have "take (length (born_log st)) (born_log st1) @ ?nb = born_log st1"
      by (rule append_take_drop_id)
    with f have b: "born_log st1 = born_log st @ ?nb" by simp
    from f have e: "emitted st1 = emitted st" by simp
    from f have "set (map id_t (tracks st1)) = set (map id_t (tracks st) @ ?nb)" by simp
    then have i: "id_t ` set (tracks st1) \<subseteq> id_t ` set (tracks st) \<union> set ?nb"
      by simp
    from post_cleanup_later[OF b e i] show ?thesis unfolding st' .
  qed
qed

lemma addMessage_fields [simp]:
  "tracks (snd (addMessage lk boxes st)) = tracks st"
  "born_log (snd (addMessage lk boxes st)) = born_log st"
  "emitted (snd (addMessage lk boxes st)) = emitted st"
  "track_cnt (snd (addMessage lk boxes st)) = track_cnt st"
  by (simp_all add: addMessage_def)

lemma lifecycle_fields [simp]:
  "tracks (waitingToRun st) = tracks st" "born_log (waitingToRun st) = born_log st"
  "emitted (waitingToRun st) = emitted st" "track_cnt (waitingToRun st) = track_cnt st"
  "tracks (waitingToHalt st) = tracks st" "born_log (waitingToHalt st) = born_log st"
  "emitted (waitingToHalt st) = emitted st" "track_cnt (waitingToHalt st) = track_cnt st"
  "paused st = st"
  by (simp_all add: waitingToRun_def waitingToHalt_def paused_def)

lemma step_later:
  assumes "step tun clk Solve ev st = Inr st'"
  shows "\<exists>nb ne. born_log st' = born_log st @ nb \<and> emitted st' = ne @ emitted st \<and>
      id_t ` set (tracks st') \<subseteq> id_t ` set (tracks st) \<union> set nb \<and>
      (\<forall>l \<in> set ne. id_b ` set l \<subseteq> id_t ` set (tracks st'))"
proof (cases ev)
  case Running
  with assms have "running tun clk Solve st = Inr st'" by simp
  then show ?thesis by (rule running_later)
next
  case (AddMessage lk boxes)
  with assms have "born_log st' = born_log st @ [] \<and> emitted st' = [] @ emitted st \<and>
      id_t ` set (tracks st') \<subseteq> id_t ` set (tracks st) \<union> set [] \<and>
      (\<forall>l \<in> set []. id_b ` set l \<subseteq> id_t ` set (tracks st'))"
    by auto
  then show ?thesis by blast
next
  case WaitingToRun
  with assms have "born_log st' = born_log st @ [] \<and> emitted st' = [] @ emitted st \<and>
      id_t ` set (tracks st') \<subseteq> id_t ` set (tracks st) \<union> set [] \<and>
      (\<forall>l \<in> set []. id_b ` set l \<subseteq> id_t ` set (tracks st'))"
    by auto
  then show ?thesis by blast
next
  case Paused
  with assms have "born_log st' = born_log st @ [] \<and> emitted st' = [] @ emitted st \<and>
      id_t ` set (tracks st') \<subseteq> id_t ` set (tracks st) \<union> set [] \<and>
      (\<forall>l \<in> set []. id_b ` set l \<subseteq> id_t ` set (tracks st'))"
    by auto
  then show ?thesis by blast
next
  case WaitingToHalt
  with assms have "born_log st' = born_log st @ [] \<and> emitted st' = [] @ emitted st \<and>
      id_t ` set (tracks st') \<subseteq> id_t ` set (tracks st) \<union> set [] \<and>
      (\<forall>l \<in> set []. id_b ` set l \<subseteq> id_t ` set (tracks st'))"
    by auto
  then show ?thesis by blast
qed

lemma exec_later:
  "exec tun clk Solve evs st = Inr st' \<Longrightarrow>
   \<exists>nb ne. born_log st' = born_log st @ nb \<and> emitted st' = ne @ emitted st \<and>
      id_t ` set (tracks st') \<subseteq> id_t ` set (tracks st) \<union> set nb \<and>
      (\<forall>l \<in> set ne. id_b ` set l \<subseteq> id_t ` set (tracks st) \<union> set nb)"
proof (induction evs arbitrary: st)
  case Nil
  then have "born_log st' = born_log st @ [] \<and> emitted st' = [] @ emitted st \<and>
      id_t ` set (tracks st') \<subseteq> id_t ` set (tracks st) \<union> set [] \<and>
      (\<forall>l \<in> set []. id_b ` set l \<subseteq> id_t ` set (tracks st) \<union> set [])"
    by simp
  then show ?case by blast
next
  case (Cons ev evs)
  from Cons.prems obtain st1 where s: "step tun clk Solve ev st = Inr st1"
    and e: "exec tun clk Solve evs st1 = Inr st'"
    by (auto split: sum.splits)
  from step_later[OF s] obtain nb1 ne1 where 1:
    "born_log st1 = born_log st @ nb1" "emitted st1 = ne1 @ emitted st"
    "id_t ` set (tracks st1) \<subseteq> id_t ` set (tracks st) \<union> set nb1"
    "\<forall>l \<in> set ne1. id_b ` set l \<subseteq> id_t ` set (tracks st1)"
    by blast
  from Cons.IH[OF e] obtain nb2 ne2 where 2:
    "born_log st' = born_log st1 @ nb2" "emitted st' = ne2 @ emitted st1"
    "id_t ` set (tracks st') \<subseteq> id_t ` set (tracks st1) \<union> set nb2"
    "\<forall>l \<in> set ne2. id_b ` set l \<subseteq> id_t ` set (tracks st1) \<union> set nb2"
    by blast
  have a: "born_log st' = born_log st @ (nb1 @ nb2)" using 1(1) 2(1) by simp
  have b: "emitted st' = (ne2 @ ne1) @ emitted st" using 1(2) 2(2) by simp
  have c: "id_t ` set (tracks st') \<subseteq> id_t ` set (tracks st) \<union> set (nb1 @ nb2)"
    using 1(3) 2(3) by (simp only: set_append) blast
  have d: "\<forall>l \<in> set (ne2 @ ne1). id_b ` set l \<subseteq> id_t ` set (tracks st) \<union> set (nb1 @ nb2)"
  proof
    fix l assume "l \<in> set (ne2 @ ne1)"
    then consider "l \<in> set ne2" | "l \<in> set ne1" by auto
    then show "id_b ` set l \<subseteq> id_t ` set (tracks st) \<union> set (nb1 @ nb2)"
    proof cases
      case 1
      with 2(4) have "id_b ` set l \<subseteq> id_t ` set (tracks st1) \<union> set nb2" by blast
      with \<open>id_t ` set (tracks st1) \<subseteq> id_t ` set (tracks st) \<union> set nb1\<close> show ?thesis
        by (simp only: set_append) blast
    next
      case 2
      with \<open>\<forall>l \<in> set ne1. id_b ` set l \<subseteq> id_t ` set (tracks st1)\<close>
      have "id_b ` set l \<subseteq> id_t ` set (tracks st1)" by blast
      with \<open>id_t ` set (tracks st1) \<subseteq> id_t ` set (tracks st) \<union> set nb1\<close> show ?thesis
        by (simp only: set_append) blast
    qed
  qed
  from a b c d show ?case by blast
qed

text \<open>
  Claim C7, as amended (age-out in whole milliseconds). Take a tick of a tracker that is
  on, whose association pass (if it runs one) stays within the bounds of \<open>targets\<close> and
  \<open>tracks\<close>. Its sweep keeps exactly the tracks whose age, counted in whole milliseconds as
  a 32-bit unsigned number, is at most \<open>max_time\<close>, and the list handed to the encoder is
  made of the kept tracks. So a track that is at least \<open>max_time + 1\<close> ms and less than
  \<open>2^32\<close> ms older than the clock read by the sweep is removed before the emission; its
  id is not in the emission when the ids are distinct; and in every continuation of
  the run that stays within bounds, every later emission holds only ids of tracks kept
  by this tick or ids born after it. What a tick does after an out-of-range read is
  left out.
\<close>

theorem expired_tracks_removed_before_emission:
  fixes clk :: "nat \<Rightarrow> int" and st1 :: Tracker
  defines "st' \<equiv> postTracks (cleanupTracks clk st1)"
  assumes "tracker_on st"
    and "(if targets st \<noteq> [] then running_cycle tun clk Solve st else Inr st) = Inr st1"
  shows "running tun clk Solve st = Inr st' \<and>
    tracks st' =
      filter (\<lambda>t. \<not> max_time st < span_count (clk (clock_reads st1)) (stamp t)) (tracks st1) \<and>
    (enc st \<longrightarrow> emitted st' = map TrackBuf_of (tracks st') # emitted st) \<and>
    (\<forall>t \<in> set (tracks st1).
       (int (unat (max_time st)) + 1) * 1000000 \<le> clk (clock_reads st1) - stamp t \<and>
       clk (clock_reads st1) - stamp t < 2 ^ 32 * 1000000 \<longrightarrow>
         t \<notin> set (tracks st') \<and>
         (distinct (map id_t (tracks st1)) \<longrightarrow> id_t t \<notin> id_t ` set (tracks st'))) \<and>
    (\<forall>evs st''. exec tun clk Solve evs st' = Inr st'' \<longrightarrow>
       (\<exists>nb ne. born_log st'' = born_log st' @ nb \<and> emitted st'' = ne @ emitted st' \<and>
          (\<forall>l \<in> set ne. id_b ` set l \<subseteq> id_t ` set (tracks st') \<union> set nb)))"
proof -
  have cfg: "max_time st1 = max_time st \<and> enc st1 = enc st \<and> emitted st1 = emitted st"
  proof (cases "targets st = []")
    case True
    with assms(3) show ?thesis by simp
  next
    case False
    with assms(3) have "running_cycle tun clk Solve st = Inr st1" by simp
    from running_cycle_fields[OF this] show ?thesis by simp
  qed
  have run: "running tun clk Solve st = Inr st'"
    using assms(2,3) by (simp add: running_def st'_def split: if_splits)
  have trs: "tracks st' =
      filter (\<lambda>t. \<not> max_time st < span_count (clk (clock_reads st1)) (stamp t)) (tracks st1)"
    using cfg by (simp add: st'_def post_cleanup_fields(1))
  have em: "enc st \<longrightarrow> emitted st' = map TrackBuf_of (tracks st') # emitted st"
    using cfg by (simp add: st'_def post_cleanup_fields(3))
  have gone: "t \<notin> set (tracks st') \<and>
         (distinct (map id_t (tracks st1)) \<longrightarrow> id_t t \<notin> id_t ` set (tracks st'))"
    if t: "t \<in> set (tracks st1)"
      and old: "(int (unat (max_time st)) + 1) * 1000000 \<le> clk (clock_reads st1) - stamp t"
        "clk (clock_reads st1) - stamp t < 2 ^ 32 * 1000000" for t
  proof -
    from span_count_expired[OF old] have ex: "max_time st < span_count (clk (clock_reads st1)) (stamp t)" .
    then have 1: "t \<notin> set (tracks st')" by (simp add: trs)
    have 2: "id_t t \<notin> id_t ` set (tracks st')" if d: "distinct (map id_t (tracks st1))"
    proof
      assume "id_t t \<in> id_t ` set (tracks st')"
      then obtain u where u: "u \<in> set (tracks st')" "id_t u = id_t t" by auto
      from u(1) have u1: "u \<in> set (tracks st1)" by (simp add: trs)
      from d have "inj_on id_t (set (tracks st1))" by (simp add: distinct_map)
      with u1 t u(2) have "u = t" by (auto dest: inj_onD)
      with u(1) 1 show False by simp
    qed
    from 1 2 show ?thesis by blast
  qed
  have later: "\<exists>nb ne. born_log st'' = born_log st' @ nb \<and> emitted st'' = ne @ emitted st' \<and>
          (\<forall>l \<in> set ne. id_b ` set l \<subseteq> id_t ` set (tracks st') \<union> set nb)"
    if "exec tun clk Solve evs st' = Inr st''" for evs st''
    using exec_later[OF that] by blast
  from run trs em gone later show ?thesis by blast
qed

section \<open>Rounding\<close>

lemma round_even_of_int [simp]: "round_even (of_int k) = k"
  by (simp add: round_even_def)

lemma binary64_0 [simp]: "binary64 0 = 0"
  by (simp add: binary64_def)

lemma binary64_of_int:
  assumes "\<bar>k\<bar> < 2 ^ 53"
  shows "binary64 (of_int k) = of_int k"
proof (cases "k = 0")
  case True
  then show ?thesis by simp
next
  case False
  let ?e = "\<lfloor>log 2 \<bar>of_int k :: real\<bar>\<rfloor>"
  have k1: "1 \<le> \<bar>of_int k :: real\<bar>"
    using False by (metis of_int_1_le_iff of_int_abs zero_less_abs_iff zless_imp_add1_zle add_0)
  then have "0 \<le> log 2 \<bar>of_int k :: real\<bar>" by simp
  then have e0: "0 \<le> ?e" by simp
  have "\<bar>of_int k :: real\<bar> < 2 ^ 53"
    using assms by (metis of_int_abs of_int_less_numeral_power_cancel_iff)
  then have "log 2 \<bar>of_int k :: real\<bar> < 53"
    using k1 by (simp add: log_less_iff del: of_int_abs)
  then have e52: "?e \<le> 52" by linarith
  from e0 have mx: "max ?e (- 1022) = ?e" by simp
  from e52 obtain n :: nat where n: "52 - ?e = int n"
    by (metis diff_ge_0_iff_ge nonneg_int_cases)
  have u: "(2::real) powr (of_int ?e - 52) = 1 / 2 ^ n"
  proof -
    have "of_int ?e - (52 :: real) = - real n"
      using n by linarith
    then show ?thesis by (simp add: powr_minus powr_realpow divide_inverse)
  qed
  have "of_int k * (2 ^ n :: real) = of_int (k * 2 ^ n)" by simp
  then have r: "round_even (of_int k * 2 ^ n) = k * 2 ^ n"
    by (simp only: round_even_of_int)
  show ?thesis
    using False by (simp add: binary64_def Let_def mx u r del: of_int_abs)
qed

lemma binary64_numeral [simp]:
  "\<bar>numeral w :: int\<bar> < 2 ^ 53 \<Longrightarrow> binary64 (numeral w) = numeral w"
  "\<bar>numeral w :: int\<bar> < 2 ^ 53 \<Longrightarrow> binary64 (- numeral w) = - numeral w"
  "binary64 1 = 1"
  using binary64_of_int[of "numeral w"] binary64_of_int[of "- numeral w"] binary64_of_int[of 1]
  by simp_all

section \<open>Runs on example data\<close>

lemma track_A_X: "X_t (Track_new tun now i person_A) = [110, 120, 0, 0, 0, 0]"
  by (simp add: Track_new_def person_A_def ureal_def Let_def)

lemma track_B_X: "X_t (Track_new tun now i person_B) = [310, 120, 0, 0, 0, 0]"
  by (simp add: Track_new_def person_B_def ureal_def Let_def)

lemma mids:
  "mid_x_of person_A = 110" "mid_y_of person_A = 120"
  "mid_x_of person_B = 310" "mid_y_of person_B = 120"
  "mid_x_of vehicle_B = 310" "mid_y_of vehicle_B = 120"
  "mid_x_of person_C = 310" "mid_y_of person_C = 420"
  by (simp_all add: mid_x_of_def mid_y_of_def person_A_def person_B_def vehicle_B_def
      person_C_def ureal_def)

lemma box_fields:
  "id_b person_A = 0" "id_b person_B = 0" "id_b vehicle_B = 0" "id_b person_C = 0"
  "type_b person_A = kPerson" "type_b person_B = kPerson" "type_b vehicle_B = kVehicle"
  "type_b person_C = kPerson"
  by (simp_all add: person_A_def person_B_def vehicle_B_def person_C_def)

lemma sqrt_square: "0 \<le> d \<Longrightarrow> sqrt (d * d) = (d::real)"
  by simp

lemma dists:
  "getDistance (Track_new tun now i person_A) 110 120 = 0"
  "getDistance (Track_new tun now i person_B) 310 120 = 0"
  "getDistance (Track_new tun now i person_B) 110 120 = 200"
  "getDistance (Track_new tun now i person_B) 310 420 = 300"
  "getDistance (Track_new tun now i person_A) 310 120 = 200"
proof -
  have "sqrt 40000 = sqrt (200 * 200)" "sqrt 90000 = sqrt (300 * 300)" by simp_all
  then have s: "sqrt 40000 = 200" "sqrt 90000 = 300" by (simp_all only: sqrt_square) 
  show "getDistance (Track_new tun now i person_A) 110 120 = 0"
  "getDistance (Track_new tun now i person_B) 310 120 = 0"
  "getDistance (Track_new tun now i person_B) 110 120 = 200"
  "getDistance (Track_new tun now i person_B) 310 420 = 300"
  "getDistance (Track_new tun now i person_A) 310 120 = 200"
    by (simp_all add: getDistance_def track_A_X track_B_X s)
qed

lemma getDistance_untouched [simp]: "getDistance (t\<lparr>touched := v\<rparr>) = getDistance t"
  by (simp add: getDistance_def fun_eq_iff)

lemma c_round_nat: "c_round (real n) = int n"
proof -
  have "\<lfloor>real n + 1 / 2\<rfloor> = int n" by linarith
  then show ?thesis by (simp add: c_round_def)
qed

lemma c_round_ureal: "word_of_int (c_round (ureal u)) = u"
  unfolding ureal_def c_round_nat by simp

lemma addTarget_box:
  "x_t (addTarget now b t) = ureal (x_b b)" "y_t (addTarget now b t) = ureal (y_b b)"
  "w_t (addTarget now b t) = ureal (w_b b)" "h_t (addTarget now b t) = ureal (h_b b)"
  by (simp_all add: addTarget_def addTarget_seed_def updateTime_def updateMeasure_def Let_def)

lemma TrackBuf_of_addTarget:
  "TrackBuf_of (addTarget now b t) = b\<lparr>type_b := type_t t, id_b := id_t t\<rparr>"
  by (simp add: TrackBuf_of_def addTarget_box c_round_ureal)

lemma TrackBuf_of_Track_new:
  "TrackBuf_of (Track_new tun now i b) = b\<lparr>id_b := i\<rparr>"
  by (simp add: TrackBuf_of_def Track_new_def Let_def c_round_ureal)

lemmas ex_simps = updateTime_untouch associateTracks_def two_persons_def create_def init_def Let_def solver_01_def
  solver_0_none_def mids dists box_fields untouchTracks_def
  running_def running_cycle_def createNewTracks_def touchTracks_def cleanupTracks_def
  postTracks_def span_count_def TrackBuf_of_addTarget TrackBuf_of_Track_new
  addMessage_def always_def resize_def Listener_timeout_def waitingToRun_def first_frame_def
  all_types_def


lemma two_persons_clocks:
  "exec ex_tuning clock_ms Solve first_frame (create all_types True True 50 1000)
     = Inr (two_persons clock_ms)"
  "exec ex_tuning clock_late Solve first_frame (create all_types True True 50 1000)
     = Inr (two_persons clock_late)"
  "exec ex_tuning clock_expired Solve first_frame (create all_types True True 50 1000)
     = Inr (two_persons clock_expired)"
  by (simp_all add: ex_simps clock_ms_def clock_late_def clock_expired_def)


lemma wrapped_ids:
  fixes born :: "32 word list"
  assumes "born = map (\<lambda>j. 1 + of_nat j) [0..<N]" and "M < N" and "M = 2 ^ 32"
  shows "length born = N \<and> born ! 0 = 1 \<and> born ! M = 1 \<and> \<not> distinct born \<and>
         \<not> sorted_wrt (<) born"
proof -
  have len: "length born = N" using assms(1) by simp
  have z: "(of_nat M :: 32 word) = 0" by (simp add: assms(3))
  have 0: "born ! 0 = 1" using assms(1,2) by simp
  have m: "born ! M = 1" using assms(1,2) z by simp
  have "0 < M" by (simp add: assms(3))
  with 0 m len assms(2) have "\<exists>i<length born. \<exists>j<length born. i \<noteq> j \<and> born ! i = born ! j"
    by (intro exI[of _ 0] conjI exI[of _ M]) simp_all
  then have nd: "\<not> distinct born"
    by (simp add: distinct_conv_nth)
  then have "\<not> sorted_wrt (<) born" by (simp add: strict_sorted_iff)
  with len 0 m nd show ?thesis by simp
qed


text \<open>
  Claim C1 (a track is fused only with detections of its category), evaluated on the
  code. Persons are tracked at A and at B; the next frame shows a person at A and a
  vehicle at B. The cost matrix has the sentinel in the vehicle's column, and its only
  minimal complete assignment is row 0 to column 0, row 1 to column 1. The gating test
  then compares the plain distance, which is 0, so \<^verbatim>\<open>addTarget\<close> fuses the vehicle into
  the person track 2: no track is created, and the emission shows a person with id 2
  in the vehicle's box.
\<close>

theorem category_mismatch_fused:
  "cost_matrix (tracks (untouchTracks (two_persons clock_ms))) [person_A, vehicle_B]
     = [[0, 10000000], [200, 10000000]] \<and>
   type_t (tracks (two_persons clock_ms) ! 1) = kPerson \<and> type_b vehicle_B = kVehicle \<and>
   exec ex_tuning clock_ms solver_01
     (first_frame @ [AddMessage always [person_A, vehicle_B], Running])
     (create all_types True True 50 1000)
   = Inr ((two_persons clock_ms)
       \<lparr>tracks := [addTarget 3000000 person_A ((Track_new ex_tuning 0 1 person_A)\<lparr>touched := False\<rparr>),
                   addTarget 4000000 vehicle_B
                     ((Track_new ex_tuning 1000000 2 person_B)\<lparr>touched := False\<rparr>)],
        targets := [], clock_reads := 6, fused_log := [(0, 0), (1, 1)],
        emitted := [[person_A\<lparr>id_b := 1\<rparr>, vehicle_B\<lparr>type_b := kPerson, id_b := 2\<rparr>],
                    [person_A\<lparr>id_b := 1\<rparr>, person_B\<lparr>id_b := 2\<rparr>]]\<rparr>)"
  by (simp add: ex_simps clock_ms_def cost_matrix_def)

text \<open>
  Claim C2 (rows without a column are skipped), evaluated on the code. Two tracks and
  one detection: the solver assigns column 0 to row 0 and \<open>-1\<close> to row 1. The loop reads
  \<^verbatim>\<open>targets_[-1]\<close>.
\<close>

theorem unassigned_row_read_out_of_range:
  "cost_matrix (tracks (untouchTracks (two_persons clock_ms))) [person_A] = [[0], [200]] \<and>
   solver_0_none [[0], [200]] = [0, - 1] \<and>
   exec ex_tuning clock_ms solver_0_none
     (first_frame @ [AddMessage always [person_A], Running])
     (create all_types True True 50 1000)
   = Inl (TargetsOutOfRange (- 1))"
  by (simp add: ex_simps clock_ms_def cost_matrix_def)

text \<open>
  Claim C3 (the inbox holds exactly the filtered batch), evaluated on the code. With
  only persons tracked, a batch of one vehicle leaves one zeroed box in \<open>targets\<close>; and a
  batch of a person and a vehicle that arrives before the previous batch of two was
  consumed leaves the second box of the previous batch behind the new person.
\<close>

theorem addMessage_keeps_tail:
  "filter (\<lambda>box. type_b box \<in> {kPerson}) [vehicle_B] = [] \<and>
   addMessage always [vehicle_B] (create {kPerson} True True 50 1000)
     = (True, (create {kPerson} True True 50 1000)\<lparr>targets := [BoxBuf_default]\<rparr>) \<and>
   filter (\<lambda>box. type_b box \<in> {kPerson}) [person_C, vehicle_B] = [person_C] \<and>
   addMessage always [person_C, vehicle_B]
       (snd (addMessage always [person_A, person_B] (create {kPerson} True True 50 1000)))
     = (True, (create {kPerson} True True 50 1000)\<lparr>targets := [person_C, person_B]\<rparr>)"
  by (simp add: ex_simps)

text \<open>
  Claim C4 as stated fails: after the first frame, a tick with empty \<open>targets\<close> leaves
  both tracks as they are, whereas a predict step would change the covariance of the
  first.
\<close>

theorem no_predict_on_empty_targets_counterexample:
  "exec ex_tuning clock_ms solver_01 first_frame (create all_types True True 50 1000)
     = Inr (two_persons clock_ms) \<and>
   tracker_on (two_persons clock_ms) \<and> targets (two_persons clock_ms) = [] \<and>
   running ex_tuning clock_ms solver_01 (two_persons clock_ms)
     = Inr ((two_persons clock_ms)
         \<lparr>clock_reads := 4,
          emitted := [[person_A\<lparr>id_b := 1\<rparr>, person_B\<lparr>id_b := 2\<rparr>],
                      [person_A\<lparr>id_b := 1\<rparr>, person_B\<lparr>id_b := 2\<rparr>]]\<rparr>) \<and>
   tracks (two_persons clock_ms) ! 0 \<noteq> updateTime (tracks (two_persons clock_ms) ! 0)"
proof -
  have before: "P_t (Track_new ex_tuning 0 1 person_A) ! 0 ! 0 = 1"
    by (simp add: Track_new_def Let_def ex_tuning_def scaled_identity_def upt_rec)
  have after: "P_t (updateTime (Track_new ex_tuning 0 1 person_A)) ! 0 ! 0 = 3"
    by (simp add: updateTime_def Track_new_def Let_def ex_tuning_def scaled_identity_def A_mat_def
        mat_add_def mat_mul_def vec_add_def dot_def upt_rec)
  have "Track_new ex_tuning 0 1 person_A \<noteq> updateTime (Track_new ex_tuning 0 1 person_A)"
  proof
    assume "Track_new ex_tuning 0 1 person_A = updateTime (Track_new ex_tuning 0 1 person_A)"
    then have "P_t (Track_new ex_tuning 0 1 person_A) ! 0 ! 0 =
        P_t (updateTime (Track_new ex_tuning 0 1 person_A)) ! 0 ! 0"
      by simp
    with before after show False by simp
  qed
  then show ?thesis
    by (simp add: ex_simps clock_ms_def)
qed


theorem unmatched_tracks_predicted_once_witness:
  "running_cycle ex_tuning clock_ms solver_01
      ((two_persons clock_ms)\<lparr>targets := [person_A, person_C]\<rparr>)
     = Inr ((two_persons clock_ms)
         \<lparr>track_cnt := 3,
          tracks := [addTarget 3000000 person_A ((Track_new ex_tuning 0 1 person_A)\<lparr>touched := False\<rparr>),
                     updateTime (Track_new ex_tuning 1000000 2 person_B),
                     Track_new ex_tuning 4000000 3 person_C],
          targets := [], clock_reads := 5, fused_log := [(0, 0)], born_log := [1, 2, 3]\<rparr>) \<and>
   (1::nat) < length (tracks ((two_persons clock_ms)\<lparr>targets := [person_A, person_C]\<rparr>)) \<and>
   (1::nat) \<notin> fst ` set [(0::nat, 0::nat)] \<and>
   tracker_on (two_persons clock_ms) \<and> targets (two_persons clock_ms) = [] \<and>
   running ex_tuning clock_ms solver_01 (two_persons clock_ms)
     = Inr (postTracks (cleanupTracks clock_ms (two_persons clock_ms))) \<and>
   born_log (postTracks (cleanupTracks clock_ms (two_persons clock_ms))) = [1, 2]"
proof -
  have cyc: "running_cycle ex_tuning clock_ms solver_01
      ((two_persons clock_ms)\<lparr>targets := [person_A, person_C]\<rparr>)
     = Inr ((two_persons clock_ms)
         \<lparr>track_cnt := 3,
          tracks := [addTarget 3000000 person_A ((Track_new ex_tuning 0 1 person_A)\<lparr>touched := False\<rparr>),
                     updateTime (Track_new ex_tuning 1000000 2 person_B),
                     Track_new ex_tuning 4000000 3 person_C],
          targets := [], clock_reads := 5, fused_log := [(0, 0)], born_log := [1, 2, 3]\<rparr>)"
    by (simp add: ex_simps clock_ms_def)
  have on: "tracker_on (two_persons clock_ms)" "targets (two_persons clock_ms) = []"
    by (simp_all add: two_persons_def create_def init_def)
  from unmatched_tracks_predicted_once
         [of ex_tuning clock_ms solver_01 "(two_persons clock_ms)\<lparr>targets := [person_A, person_C]\<rparr>"]
       unmatched_tracks_predicted_once [of ex_tuning clock_ms solver_01 "two_persons clock_ms"]
       cyc on
  show ?thesis
    by (simp add: two_persons_def create_def init_def)
qed

theorem associateTracks_one_to_one_witness:
  "associateTracks clock_ms solver_01
      (untouchTracks ((two_persons clock_ms)\<lparr>targets := [person_A, person_B]\<rparr>))
     = Inr ((two_persons clock_ms)
         \<lparr>tracks := [addTarget 3000000 person_A ((Track_new ex_tuning 0 1 person_A)\<lparr>touched := False\<rparr>),
                     addTarget 4000000 person_B ((Track_new ex_tuning 1000000 2 person_B)\<lparr>touched := False\<rparr>)],
          targets := [], clock_reads := 5, fused_log := [(0, 0), (1, 1)]\<rparr>) \<and>
   distinct (solver_01 (cost_matrix
      (tracks (untouchTracks ((two_persons clock_ms)\<lparr>targets := [person_A, person_B]\<rparr>)))
      [person_A, person_B])) \<and>
   list_all (\<lambda>k. 0 \<le> k) (solver_01 (cost_matrix
      (tracks (untouchTracks ((two_persons clock_ms)\<lparr>targets := [person_A, person_B]\<rparr>)))
      [person_A, person_B])) \<and>
   distinct (map fst [(0::nat, 0::nat), (1, 1)]) \<and> distinct (map snd [(0::nat, 0::nat), (1, 1)])"
proof -
  let ?U = "untouchTracks ((two_persons clock_ms)\<lparr>targets := [person_A, person_B]\<rparr>)"
  have tg: "targets ?U = [person_A, person_B]" by (simp add: untouchTracks_def)
  have run: "associateTracks clock_ms solver_01 ?U
     = Inr ((two_persons clock_ms)
         \<lparr>tracks := [addTarget 3000000 person_A ((Track_new ex_tuning 0 1 person_A)\<lparr>touched := False\<rparr>),
                     addTarget 4000000 person_B ((Track_new ex_tuning 1000000 2 person_B)\<lparr>touched := False\<rparr>)],
          targets := [], clock_reads := 5, fused_log := [(0, 0), (1, 1)]\<rparr>)"
    by (simp add: ex_simps clock_ms_def)
  have d: "distinct (solver_01 (cost_matrix (tracks ?U) (targets ?U)))"
    and p: "\<forall>k \<in> set (solver_01 (cost_matrix (tracks ?U) (targets ?U))). 0 \<le> k"
    by (simp_all add: solver_01_def)
  from associateTracks_one_to_one[OF run d p] run d p show ?thesis
    by (simp add: tg list_all_iff)
qed

theorem associateTracks_gating_witness:
  "associateTracks clock_ms solver_01
      (untouchTracks ((two_persons clock_ms)\<lparr>targets := [person_A, person_C]\<rparr>))
     = Inr ((two_persons clock_ms)
         \<lparr>tracks := [addTarget 3000000 person_A ((Track_new ex_tuning 0 1 person_A)\<lparr>touched := False\<rparr>),
                     (Track_new ex_tuning 1000000 2 person_B)\<lparr>touched := False\<rparr>],
          targets := [person_C], clock_reads := 4, fused_log := [(0, 0)]\<rparr>) \<and>
   getDistance ((Track_new ex_tuning 0 1 person_A)\<lparr>touched := False\<rparr>)
     (mid_x_of person_A) (mid_y_of person_A) \<le> 50 \<and>
   (1::nat) < length (solver_01 (cost_matrix
      (tracks (untouchTracks ((two_persons clock_ms)\<lparr>targets := [person_A, person_C]\<rparr>)))
      [person_A, person_C])) \<and>
   50 < getDistance ((Track_new ex_tuning 1000000 2 person_B)\<lparr>touched := False\<rparr>)
     (mid_x_of person_C) (mid_y_of person_C) \<and>
   distinct (solver_01 (cost_matrix
      (tracks (untouchTracks ((two_persons clock_ms)\<lparr>targets := [person_A, person_C]\<rparr>)))
      [person_A, person_C])) \<and>
   id_b person_C \<noteq> - 1 \<and>
   (1::nat) \<notin> fst ` set [(0::nat, 0::nat)] \<and> (1::nat) \<notin> snd ` set [(0::nat, 0::nat)] \<and>
   person_C \<in> set [person_C]"
proof -
  let ?U = "untouchTracks ((two_persons clock_ms)\<lparr>targets := [person_A, person_C]\<rparr>)"
  have run: "associateTracks clock_ms solver_01 ?U
     = Inr ((two_persons clock_ms)
         \<lparr>tracks := [addTarget 3000000 person_A ((Track_new ex_tuning 0 1 person_A)\<lparr>touched := False\<rparr>),
                     (Track_new ex_tuning 1000000 2 person_B)\<lparr>touched := False\<rparr>],
          targets := [person_C], clock_reads := 4, fused_log := [(0, 0)]\<rparr>)"
    by (simp add: ex_simps clock_ms_def)
  from associateTracks_gating[OF run] run show ?thesis
    by (simp add: solver_01_def mids dists box_fields)
qed

text \<open>
  Claim C7 as stated fails: with \<open>max_time\<close> = 1000 ms, a track stamped at 0 is 1000.5 ms
  old when the sweep reads the clock, yet it is kept and emitted.
\<close>

theorem sub_millisecond_age_kept_counterexample:
  "exec ex_tuning clock_late solver_01 first_frame (create all_types True True 50 1000)
     = Inr (two_persons clock_late) \<and>
   tracker_on (two_persons clock_late) \<and>
   max_time (two_persons clock_late) = 1000 \<and>
   stamp (tracks (two_persons clock_late) ! 0) = 0 \<and>
   clock_late (clock_reads (two_persons clock_late)) = 1000500000 \<and>
   running ex_tuning clock_late solver_01 (two_persons clock_late)
     = Inr ((two_persons clock_late)
         \<lparr>clock_reads := 4,
          emitted := [[person_A\<lparr>id_b := 1\<rparr>, person_B\<lparr>id_b := 2\<rparr>],
                      [person_A\<lparr>id_b := 1\<rparr>, person_B\<lparr>id_b := 2\<rparr>]]\<rparr>)"
  by (simp add: ex_simps clock_late_def)

theorem expired_tracks_removed_before_emission_witness:
  "tracker_on (two_persons clock_expired) \<and>
   (if targets (two_persons clock_expired) \<noteq> []
    then running_cycle ex_tuning clock_expired solver_01 (two_persons clock_expired)
    else Inr (two_persons clock_expired)) = Inr (two_persons clock_expired) \<and>
   running ex_tuning clock_expired solver_01 (two_persons clock_expired)
     = Inr ((two_persons clock_expired)
         \<lparr>tracks := [], clock_reads := 4,
          emitted := [[], [person_A\<lparr>id_b := 1\<rparr>, person_B\<lparr>id_b := 2\<rparr>]]\<rparr>) \<and>
   Track_new ex_tuning 0 1 person_A \<in> set (tracks (two_persons clock_expired)) \<and>
   (int (unat (max_time (two_persons clock_expired))) + 1) * 1000000
     \<le> clock_expired (clock_reads (two_persons clock_expired))
         - stamp (Track_new ex_tuning 0 1 person_A) \<and>
   clock_expired (clock_reads (two_persons clock_expired))
     - stamp (Track_new ex_tuning 0 1 person_A) < 2 ^ 32 * 1000000 \<and>
   distinct (map id_t (tracks (two_persons clock_expired))) \<and>
   exec ex_tuning clock_expired solver_01 [Paused]
       (postTracks (cleanupTracks clock_expired (two_persons clock_expired)))
     = Inr (postTracks (cleanupTracks clock_expired (two_persons clock_expired)))"
proof -
  have on: "tracker_on (two_persons clock_expired)"
    by (simp add: two_persons_def create_def init_def)
  have st1: "(if targets (two_persons clock_expired) \<noteq> []
    then running_cycle ex_tuning clock_expired solver_01 (two_persons clock_expired)
    else Inr (two_persons clock_expired)) = Inr (two_persons clock_expired)"
    by (simp add: two_persons_def create_def init_def)
  from expired_tracks_removed_before_emission[OF on st1] on st1 show ?thesis
    by (simp add: ex_simps clock_expired_def)
qed

theorem ids_increase_while_counter_fits_witness:
  "exec ex_tuning clock_ms solver_01 first_frame (create all_types True True 50 1000)
     = Inr (two_persons clock_ms) \<and>
   length (born_log (two_persons clock_ms)) < 2 ^ 32 \<and>
   born_log (two_persons clock_ms) = [1, 2] \<and>
   map id_t (tracks (two_persons clock_ms)) = [1, 2] \<and>
   sorted_wrt (<) (born_log (two_persons clock_ms)) \<and> distinct (born_log (two_persons clock_ms))"
proof -
  have run: "exec ex_tuning clock_ms solver_01 first_frame (create all_types True True 50 1000)
     = Inr (two_persons clock_ms)"
    by (rule two_persons_clocks(1))
  have len: "length (born_log (two_persons clock_ms)) < 2 ^ 32"
    by (simp add: two_persons_def create_def init_def)
  from ids_increase_while_counter_fits[OF run len] run len show ?thesis
    by (simp add: two_persons_def create_def init_def)
qed

section \<open>Rounding at the gate, and the counter after many frames\<close>

lemma sqrt13_scaled:
  "\<lfloor>sqrt 13 * 2 ^ 51\<rfloor> = 8118979690322419"
  "sqrt 13 * 2 ^ 51 - 8118979690322419 < 1 / 2"
proof -
  have "(2::real) ^ 102 = (2 ^ 51)\<^sup>2" by simp
  then have y: "sqrt 13 * 2 ^ 51 = sqrt (13 * 2 ^ 102)"
    by (simp only: real_sqrt_mult real_sqrt_abs) simp
  have lo: "8118979690322419 \<le> sqrt (13 * 2 ^ 102)"
    by (rule real_le_rsqrt) simp
  have hi: "sqrt (13 * 2 ^ 102) < 8118979690322419 + 1 / 2"
    by (rule real_less_lsqrt) (simp_all add: power2_eq_square)
  from lo hi show "\<lfloor>sqrt 13 * 2 ^ 51\<rfloor> = 8118979690322419"
    unfolding y by (intro floor_unique) simp_all
  from hi show "sqrt 13 * 2 ^ 51 - 8118979690322419 < 1 / 2"
    unfolding y by simp
qed

lemma binary64_sqrt13: "binary64 (sqrt 13) = fl_sqrt13"
proof -
  have pos: "0 < sqrt 13" by simp
  have "2 \<le> sqrt 13" by (rule real_le_rsqrt) simp
  moreover have "sqrt 13 < 4" by (rule real_less_lsqrt) simp_all
  ultimately have "\<lfloor>log 2 (sqrt 13)\<rfloor> = 1"
    using pos by (simp add: floor_log_eq_powr_iff)
  then have e: "max \<lfloor>log 2 \<bar>sqrt 13\<bar>\<rfloor> (- 1022) = 1" by simp
  have u: "(2::real) powr (of_int 1 - 52) = 1 / 2 ^ 51"
    by (simp add: powr_neg_numeral)
  have "round_even (sqrt 13 * 2 ^ 51) = 8118979690322419"
    using sqrt13_scaled by (simp add: round_even_def)
  then show ?thesis
    using pos unfolding binary64_def Let_def e u fl_sqrt13_def by simp
qed

lemma fl_sqrt13_less: "fl_sqrt13 < sqrt 13"
  unfolding fl_sqrt13_def by (rule real_less_rsqrt) (simp add: power2_eq_square)


lemma person_D_fields:
  "mid_x_of person_D = 112" "mid_y_of person_D = 123" "id_b person_D = 0"
  "type_b person_D = kPerson"
  by (simp_all add: mid_x_of_def mid_y_of_def person_D_def ureal_def)

lemma dist_A_D: "getDistance (Track_new tun now i person_A) 112 123 = fl_sqrt13"
  by (simp add: getDistance_def track_A_X binary64_sqrt13)

text \<open>
  Claim C6 as stated fails. A person is tracked at A, with filtered centroid (110, 120),
  and \<open>max_dist\<close> is the \<^verbatim>\<open>double\<close> nearest to the square root of 13, which lies below it.
  The next detection has its centroid at (112, 123), at distance exactly the square root
  of 13, more than \<open>max_dist\<close>; \<^verbatim>\<open>getDistance\<close> returns the rounded root, which is \<open>max_dist\<close>
  itself, and the detection is fused.
\<close>

theorem rounded_distance_fused_counterexample:
  "X_t (Track_new ex_tuning 0 1 person_A) = [110, 120, 0, 0, 0, 0] \<and>
   mid_x_of person_D = 112 \<and> mid_y_of person_D = 123 \<and>
   fl_sqrt13 < sqrt ((112 - 110)\<^sup>2 + (123 - 120)\<^sup>2) \<and>
   getDistance (Track_new ex_tuning 0 1 person_A) 112 123 = fl_sqrt13 \<and>
   exec ex_tuning clock_ms solver_0 (one_person @ [AddMessage always [person_D], Running])
     (create all_types True True fl_sqrt13 1000)
   = Inr ((create all_types True True fl_sqrt13 1000)
       \<lparr>track_cnt := 1, tracker_on := True,
        tracks := [addTarget 2000000 person_D
                     ((Track_new ex_tuning 0 1 person_A)\<lparr>touched := False\<rparr>)],
        targets := [], clock_reads := 4, fused_log := [(0, 0)], born_log := [1],
        emitted := [[person_D\<lparr>type_b := kPerson, id_b := 1\<rparr>], [person_A\<lparr>id_b := 1\<rparr>]]\<rparr>)"
proof -
  have "sqrt ((112 - 110)\<^sup>2 + (123 - 120)\<^sup>2) = sqrt 13" by simp
  with fl_sqrt13_less have far: "fl_sqrt13 < sqrt ((112 - 110)\<^sup>2 + (123 - 120)\<^sup>2)"
    by (simp only:)
  have run: "exec ex_tuning clock_ms solver_0 (one_person @ [AddMessage always [person_D], Running])
     (create all_types True True fl_sqrt13 1000)
   = Inr ((create all_types True True fl_sqrt13 1000)
       \<lparr>track_cnt := 1, tracker_on := True,
        tracks := [addTarget 2000000 person_D
                     ((Track_new ex_tuning 0 1 person_A)\<lparr>touched := False\<rparr>)],
        targets := [], clock_reads := 4, fused_log := [(0, 0)], born_log := [1],
        emitted := [[person_D\<lparr>type_b := kPerson, id_b := 1\<rparr>], [person_A\<lparr>id_b := 1\<rparr>]]\<rparr>)"
    by (simp add: ex_simps clock_ms_def one_person_def solver_0_def person_D_fields dist_A_D)
  from far run show ?thesis
    by (simp only: track_A_X person_D_fields dist_A_D)
qed

lemma exec_append:
  "exec tun clk Solve (xs @ ys) st =
     (case exec tun clk Solve xs st of Inl e \<Rightarrow> Inl e | Inr st1 \<Rightarrow> exec tun clk Solve ys st1)"
  by (induction xs arbitrary: st) (simp_all split: sum.splits)

lemma span_clock_ms:
  "span_count (clock_ms (Suc r)) (clock_ms r) = 1"
  "span_count (clock_ms (Suc (Suc r))) (clock_ms r) = 2"
  by (simp_all add: span_count_def clock_ms_def algebra_simps signed_divide_int_def)

lemma short_visit_step:
  assumes "tracks st = []" "targets st = []" "tracker_on st" "max_time st = 1"
    "target_types st = all_types"
  shows "\<exists>st'. exec tun clock_ms Solve short_visit st = Inr st' \<and>
      tracks st' = [] \<and> targets st' = [] \<and> tracker_on st' \<and> max_time st' = 1 \<and>
      target_types st' = all_types \<and> track_cnt st' = track_cnt st + 1 \<and>
      born_log st' = born_log st @ [track_cnt st + 1]"
  using assms
  by (simp add: short_visit_def addMessage_def always_def resize_def all_types_def box_fields
      running_def running_cycle_def associateTracks_def untouchTracks_def createNewTracks_def
      touchTracks_def cleanupTracks_def postTracks_def Let_def span_clock_ms)

lemma visits_rounds:
  assumes "tracks st = []" "targets st = []" "tracker_on st" "max_time st = 1"
    "target_types st = all_types"
    and "track_cnt st = of_nat n" "born_log st = map (\<lambda>j. 1 + of_nat j) [0..<n]"
  shows "\<exists>st'. exec tun clock_ms Solve (concat (replicate k short_visit)) st = Inr st' \<and>
      born_log st' = map (\<lambda>j. 1 + of_nat j) [0..<n + k]"
  using assms
proof (induction k arbitrary: st n)
  case 0
  then show ?case by simp
next
  case (Suc k)
  from short_visit_step[OF Suc.prems(1-5), of tun Solve] obtain st1 where
    1: "exec tun clock_ms Solve short_visit st = Inr st1"
    "tracks st1 = []" "targets st1 = []" "tracker_on st1" "max_time st1 = 1"
    "target_types st1 = all_types" "track_cnt st1 = track_cnt st + 1"
    "born_log st1 = born_log st @ [track_cnt st + 1]"
    by blast
  have c: "track_cnt st1 = of_nat (Suc n)"
    using 1(7) Suc.prems(6) by simp
  have b: "born_log st1 = map (\<lambda>j. 1 + of_nat j) [0..<Suc n]"
    using 1(8) Suc.prems(6,7) by simp
  from Suc.IH[OF 1(2-6) c b] obtain st' where
    2: "exec tun clock_ms Solve (concat (replicate k short_visit)) st1 = Inr st'"
    "born_log st' = map (\<lambda>j. 1 + of_nat j) [0..<Suc n + k]"
    by blast
  have "exec tun clock_ms Solve (concat (replicate (Suc k) short_visit)) st = Inr st'"
    by (simp add: exec_append 1(1) 2(1))
  with 2(2) show ?case by simp
qed

lemma visits_born:
  "\<exists>st. exec tun clock_ms Solve (visits k) (create all_types q e md 1) = Inr st \<and>
      born_log st = map (\<lambda>j. 1 + of_nat j) [0..<k]"
proof -
  let ?s = "waitingToRun (create all_types q e md 1)"
  have "tracks ?s = []" "targets ?s = []" "tracker_on ?s" "max_time ?s = 1"
    "target_types ?s = all_types" "track_cnt ?s = of_nat 0"
    "born_log ?s = map (\<lambda>j. 1 + of_nat j) [0..<0]"
    by (simp_all add: waitingToRun_def create_def init_def)
  from visits_rounds[OF this, of tun Solve k] show ?thesis
    by (simp add: visits_def)
qed

text \<open>
  Claim C8 as stated fails. With \<open>max_time\<close> 1 ms, a person is seen in one frame and has
  aged out when the next one comes, \<open>2^32 + 1\<close> times over (three milliseconds each): each
  frame creates one track, no association pass runs, and the last track is given the
  id 1 of the first, the counter having wrapped.
\<close>

theorem ids_reused_after_wrap_counterexample:
  "(case exec ex_tuning clock_ms solver_01 (visits (2 ^ 32 + 1))
           (create all_types True True 50 1) of
      Inl err \<Rightarrow> False
    | Inr st \<Rightarrow> length (born_log st) = 2 ^ 32 + 1 \<and> born_log st ! 0 = 1 \<and>
        born_log st ! (2 ^ 32) = 1 \<and> \<not> distinct (born_log st) \<and>
        \<not> sorted_wrt (<) (born_log st))"
proof -
  from visits_born[of ex_tuning solver_01 "2 ^ 32 + 1" True True 50]
  obtain st where run: "exec ex_tuning clock_ms solver_01 (visits (2 ^ 32 + 1))
        (create all_types True True 50 1) = Inr st"
    and born: "born_log st = map (\<lambda>j. 1 + of_nat j) [0..<2 ^ 32 + 1]"
    by blast
  have "(2::nat) ^ 32 < 2 ^ 32 + 1" by simp
  from wrapped_ids[OF born this refl] show ?thesis
    unfolding run sum.case by blast
qed

end
